theory Spec2Isabelle
  imports Main "HOL-Library.Sublist"
begin

section \<open>The host toolkit: runes, text buffer, text iterators\<close>

text \<open>
  A Go \<open>rune\<close> is a Unicode code point; it is modelled as a natural number.
  \<open>runes\<close> turns an ASCII literal into the runes of the Go string.
\<close>

type_synonym rune = nat

definition runes :: "string \<Rightarrow> rune list" where
  "runes s = map of_char s"

text \<open>\<open>const WhitespaceRune rune = ' '\<close> and \<open>const MaxResults = 8\<close>.\<close>

definition WhitespaceRune :: rune where
  "WhitespaceRune = 32"

definition MaxResults :: nat where
  "MaxResults = 8"

text \<open>
  \<open>unicode.IsSpace\<close> of the Go standard library: in Latin-1 the runes
  \<open>\t \n \v \f \r\<close>, space, U+0085 and U+00A0; beyond Latin-1 the runes with the
  White_Space property.
\<close>

definition IsSpace :: "rune \<Rightarrow> bool" where
  "IsSpace r =
     (if r \<le> 255 then r \<in> {9, 10, 11, 12, 13, 32, 133, 160}
      else r = 5760 \<or> (8192 \<le> r \<and> r \<le> 8202) \<or> r \<in> {8232, 8233, 8239, 8287, 12288})"

text \<open>
  The \<open>gtk.TextBuffer\<close>: its characters and its \<open>cursor-position\<close> property.
  A \<open>gtk.TextIter\<close> is a character offset into the buffer, between \<open>0\<close> and
  the number of characters (the end iterator).
\<close>

record TextBuffer =
  content :: "rune list"
  cursor_position :: nat

text \<open>\<open>IterAtOffset\<close>: an offset past the last character gives the end iterator.\<close>

definition IterAtOffset :: "TextBuffer \<Rightarrow> nat \<Rightarrow> nat" where
  "IterAtOffset b n = min n (length (content b))"

text \<open>
  \<open>ForwardChar\<close> moves an iterator one character forward and stays at the end
  iterator; \<open>BackwardChar\<close> moves one character backward and stays at offset 0.
\<close>

definition ForwardChar :: "rune list \<Rightarrow> nat \<Rightarrow> nat" where
  "ForwardChar txt i = (if i < length txt then Suc i else i)"

definition BackwardChar :: "nat \<Rightarrow> nat" where
  "BackwardChar i = i - 1"

text \<open>
  \<open>BackwardFindChar\<close> of the toolkit is the loop
  \<^verbatim>\<open>while (gtk_text_iter_backward_char (iter)) if (pred (gtk_text_iter_get_char (iter))) return TRUE; return FALSE;\<close>
  it steps back one character, then tests the character the iterator now points at
  (the one just stepped over). On a match the iterator is left in front of the matching
  character; otherwise it ends at offset 0. The predicate of the source assigns a
  captured variable, so the predicate here threads a state \<open>'s\<close>.
\<close>

fun BackwardFindChar ::
  "(rune \<Rightarrow> 's \<Rightarrow> bool \<times> 's) \<Rightarrow> rune list \<Rightarrow> nat \<Rightarrow> 's \<Rightarrow> bool \<times> nat \<times> 's" where
  "BackwardFindChar pred txt 0 s = (False, 0, s)"
| "BackwardFindChar pred txt (Suc i) s =
     (case pred (txt ! i) s of
        (True, s') \<Rightarrow> (True, i, s')
      | (False, s') \<Rightarrow> BackwardFindChar pred txt i s')"

text \<open>
  \<open>ForwardFindChar\<close> of the toolkit is the loop
  \<^verbatim>\<open>while (gtk_text_iter_forward_char (iter)) if (pred (gtk_text_iter_get_char (iter))) return TRUE; return FALSE;\<close>
  where \<open>gtk_text_iter_forward_char\<close> returns FALSE once the iterator reaches the end
  iterator. It steps forward one character, then tests the character the iterator now
  points at (the one after the new position); the character at the starting position
  is never tested. On a match the iterator is left in front of the matching character;
  otherwise it ends at the end iterator.
\<close>

function ForwardFindChar :: "(rune \<Rightarrow> bool) \<Rightarrow> rune list \<Rightarrow> nat \<Rightarrow> bool \<times> nat" where
  "ForwardFindChar pred txt i =
     (if Suc i < length txt
      then (if pred (txt ! Suc i) then (True, Suc i) else ForwardFindChar pred txt (Suc i))
      else (False, max i (length txt)))"
  by pat_completeness auto
termination
  by (relation "measure (\<lambda>(pred, txt, i). length txt - i)") auto

declare ForwardFindChar.simps [simp del]

text \<open>
  \<open>buffer.Text(start, end, false)\<close>: the characters between two iterators; the toolkit
  puts the two iterators in order first.
\<close>

definition Text :: "TextBuffer \<Rightarrow> nat \<Rightarrow> nat \<Rightarrow> rune list" where
  "Text b s e = take (max s e - min s e) (drop (min s e) (content b))"

text \<open>
  \<open>buffer.Insert(iter, str)\<close>: the characters are inserted at the iterator. The cursor
  mark has right gravity: a cursor at or after the insertion point moves with the text.
\<close>

definition Insert :: "nat \<Rightarrow> rune list \<Rightarrow> TextBuffer \<Rightarrow> TextBuffer" where
  "Insert i str b =
     b\<lparr>content := take i (content b) @ str @ drop i (content b),
       cursor_position := (if i \<le> cursor_position b then cursor_position b + length str
                           else cursor_position b)\<rparr>"

section \<open>Contexts, searchers, candidates\<close>

text \<open>
  A \<open>context.Context\<close> as the chain of derivations the source builds:
  \<open>a.parent\<close>, \<open>context.WithCancel\<close>, \<open>context.WithValue\<close> with the
  \<open>iterDataCtx\<close> key, \<open>context.WithTimeout\<close>. A cancellable context carries the
  identity its cancel function refers to.
\<close>

record IterData =
  Start :: nat
  End :: nat

datatype Context =
    ParentCtx
  | CancelCtx nat
  | ValueCtx Context IterData
  | TimerCtx nat Context int

datatype panic =
    NoIterData
  | DuplicateRune rune
  | IndexOutOfRange
  | NilIter

text \<open>\<open>IterDataFromContext\<close> panics when the context holds no \<open>IterData\<close>.\<close>

fun IterDataFromContext :: "Context \<Rightarrow> panic + IterData" where
  "IterDataFromContext ParentCtx = Inl NoIterData"
| "IterDataFromContext (CancelCtx n) = Inl NoIterData"
| "IterDataFromContext (ValueCtx c d) = Inr d"
| "IterDataFromContext (TimerCtx n c t) = IterDataFromContext c"

text \<open>
  The \<open>Searcher\<close> interface: \<open>Rune()\<close> and \<open>Search(ctx, str)\<close>. The candidates
  (\<open>Data\<close>) are opaque values of type \<open>'d\<close>.
\<close>

record 'd Searcher =
  Rune :: rune
  Search :: "Context \<Rightarrow> rune list \<Rightarrow> 'd list"

text \<open>
  \<open>SelectedData\<close>: the two bound iterators (nil before the first search) and the
  candidate. A \<open>SelectedFunc\<close> receives pointers to the iterators and reaches the
  buffer through its closure: it returns whether it handled the selection, the buffer
  it leaves, and where it leaves the two iterators.
\<close>

record 'd SelectedData =
  Bounds :: "nat option \<times> nat option"
  Data :: 'd

type_synonym 'd SelectedFunc =
  "'d SelectedData \<Rightarrow> TextBuffer \<Rightarrow> bool \<times> TextBuffer \<times> nat \<times> nat"

section \<open>The list box and the popover\<close>

text \<open>
  A \<open>gtk.ListBoxRow\<close> is known by its identity. The \<open>gtk.ListBox\<close> holds its rows in
  order and at most one selected row; removing the selected row leaves no row selected.
  \<open>Index\<close> is the position of a row in its list box, \<open>-1\<close> when it is in none.
\<close>

type_synonym widget = nat

record ListBox =
  children :: "widget list"
  selected :: "widget option"

definition Append :: "widget \<Rightarrow> ListBox \<Rightarrow> ListBox" where
  "Append w lb = lb\<lparr>children := children lb @ [w]\<rparr>"

definition Remove :: "widget \<Rightarrow> ListBox \<Rightarrow> ListBox" where
  "Remove w lb =
     lb\<lparr>children := remove1 w (children lb),
        selected := (if selected lb = Some w then None else selected lb)\<rparr>"

definition SelectRow :: "widget \<Rightarrow> ListBox \<Rightarrow> ListBox" where
  "SelectRow w lb = lb\<lparr>selected := Some w\<rparr>"

fun indexOf :: "widget \<Rightarrow> widget list \<Rightarrow> int" where
  "indexOf w [] = -1"
| "indexOf w (x # xs) =
     (if x = w then 0 else (let i = indexOf w xs in if i < 0 then -1 else i + 1))"

definition Index :: "ListBox \<Rightarrow> widget \<Rightarrow> int" where
  "Index lb w = indexOf w (children lb)"

record 'd row =
  ListBoxRow :: widget
  data :: 'd

section \<open>The autocompleter\<close>

text \<open>
  The calls the autocompleter makes on its collaborators, in program order: the
  \<open>context\<close> package, the searchers, the selection callbacks, the buffer, the list
  box and the popover. A searcher returns its candidates when it is called, and a
  selection callback acts on the buffer and on the two iterators it is given; neither
  calls a method of the autocompleter while it runs. \<open>Popup\<close> shows the popover and
  \<open>Popdown\<close> hides it at once.
\<close>

datatype 'd call =
    CtxCancel nat
  | CtxWithCancel nat
  | CtxWithTimeout nat Context int
  | SearchCall rune Context "rune list"
  | OnSelectCall nat "'d SelectedData"
  | BufferInsert nat "rune list"
  | ListAppend widget
  | ListRemove widget
  | ListSelectRow widget
  | PopoverPopup
  | PopoverPopdown

text \<open>
  The \<open>Autocompleter\<close> struct. The widgets it points to are held in place: \<open>buffer\<close>
  is the state of the text buffer, \<open>popover\<close> is the popover's visibility, \<open>listBox\<close>
  the state of the list box. \<open>start\<close> and \<open>end'\<close> are the two iterators, nil in a new
  instance. \<open>cancel\<close> is the stored cancel function, given by the identity of the context
  it cancels. The last three fields are the environment: the next fresh context
  identity, the next fresh row identity, and the calls made so far.
\<close>

record 'd Autocompleter =
  buffer :: TextBuffer
  start :: "nat option"
  end' :: "nat option"
  onSelects :: "'d SelectedFunc list"
  popover :: bool
  listBox :: ListBox
  listRows :: "'d row list"
  searchers :: "rune \<rightharpoonup> 'd Searcher"
  cancel :: "nat option"
  minChars :: int
  timeout :: int
  poppedUp :: bool
  cancelOnChange :: bool
  paused :: bool
  nextCtx :: nat
  nextRow :: nat
  calls :: "'d call list"

definition emit :: "'d call \<Rightarrow> 'd Autocompleter \<Rightarrow> 'd Autocompleter" where
  "emit c a = a\<lparr>calls := calls a @ [c]\<rparr>"

text \<open>\<open>New\<close>: the popover is hidden, nothing is registered, every flag is off.\<close>

definition New :: "TextBuffer \<Rightarrow> 'd Autocompleter" where
  "New b =
     \<lparr>buffer = b, start = None, end' = None, onSelects = [], popover = False,
      listBox = \<lparr>children = [], selected = None\<rparr>, listRows = [],
      searchers = Map.empty, cancel = None, minChars = 0, timeout = 0,
      poppedUp = False, cancelOnChange = False, paused = False,
      nextCtx = 0, nextRow = 0, calls = []\<rparr>"

text \<open>The handler connected to the text view's unmap signal.\<close>

definition Unmap :: "'d Autocompleter \<Rightarrow> 'd Autocompleter" where
  "Unmap a = (case cancel a of None \<Rightarrow> a | Some c \<Rightarrow> emit (CtxCancel c) a)"

definition Unpause :: "'d Autocompleter \<Rightarrow> 'd Autocompleter" where
  "Unpause a = a\<lparr>paused := False\<rparr>"

definition SetMinLength :: "int \<Rightarrow> 'd Autocompleter \<Rightarrow> 'd Autocompleter" where
  "SetMinLength minLength a = a\<lparr>minChars := minLength\<rparr>"

definition SetCancelOnChange :: "bool \<Rightarrow> 'd Autocompleter \<Rightarrow> 'd Autocompleter" where
  "SetCancelOnChange v a = a\<lparr>cancelOnChange := v\<rparr>"

definition SetTimeout :: "int \<Rightarrow> 'd Autocompleter \<Rightarrow> 'd Autocompleter" where
  "SetTimeout d a = a\<lparr>timeout := d\<rparr>"

definition AddSelectedFunc :: "'d SelectedFunc \<Rightarrow> 'd Autocompleter \<Rightarrow> 'd Autocompleter" where
  "AddSelectedFunc selectedFunc a = a\<lparr>onSelects := onSelects a @ [selectedFunc]\<rparr>"

text \<open>\<open>Use\<close> panics on a rune that already has a searcher.\<close>

fun Use :: "'d Searcher list \<Rightarrow> 'd Autocompleter \<Rightarrow> panic + 'd Autocompleter" where
  "Use [] a = Inr a"
| "Use (s # ss) a =
     (if searchers a (Rune s) \<noteq> None then Inl (DuplicateRune (Rune s))
      else Use ss (a\<lparr>searchers := (searchers a)(Rune s \<mapsto> s)\<rparr>))"

text \<open>\<open>hide\<close>, \<open>show\<close> and \<open>clear\<close>.\<close>

definition hide :: "'d Autocompleter \<Rightarrow> 'd Autocompleter" where
  "hide a =
     (if poppedUp a then emit PopoverPopdown (a\<lparr>popover := False, poppedUp := False\<rparr>)
      else a)"

definition show' :: "'d Autocompleter \<Rightarrow> 'd Autocompleter" where
  "show' a =
     (if \<not> poppedUp a then emit PopoverPopup (a\<lparr>poppedUp := True, popover := True\<rparr>)
      else a)"

definition clear :: "'d Autocompleter \<Rightarrow> 'd Autocompleter" where
  "clear a =
     a\<lparr>listBox := fold Remove (map ListBoxRow (listRows a)) (listBox a),
       listRows := [],
       calls := calls a @ map ListRemove (map ListBoxRow (listRows a))\<rparr>"

definition IsVisible :: "'d Autocompleter \<Rightarrow> bool" where
  "IsVisible a = (length (listRows a) > 0 \<and> popover a)"

definition Clear :: "'d Autocompleter \<Rightarrow> bool \<times> 'd Autocompleter" where
  "Clear a = (if \<not> IsVisible a then (False, a) else (True, hide (clear a)))"

definition Pause :: "'d Autocompleter \<Rightarrow> 'd Autocompleter" where
  "Pause a = snd (Clear (a\<lparr>paused := True\<rparr>))"

subsection \<open>Autocomplete\<close>

text \<open>Lines 244-247: the stored cancel function is called and dropped.\<close>

definition cancelPrevious :: "'d Autocompleter \<Rightarrow> 'd Autocompleter" where
  "cancelPrevious a =
     (case cancel a of None \<Rightarrow> a | Some c \<Rightarrow> emit (CtxCancel c) (a\<lparr>cancel := None\<rparr>))"

text \<open>
  The predicate given to \<open>BackwardFindChar\<close> (lines 263-276). It assigns the captured
  variable \<open>searcher\<close> at every character it is called on.
\<close>

definition findPred ::
  "(rune \<rightharpoonup> 'd Searcher) \<Rightarrow> rune \<Rightarrow> 'd Searcher option \<Rightarrow> bool \<times> 'd Searcher option" where
  "findPred m r s =
     (if IsSpace r then (True, m WhitespaceRune) else (m r \<noteq> None, m r))"

text \<open>One iteration of the loop of lines 329-339: the row is built, appended to the
  list box and to \<open>listRows\<close>.\<close>

definition appendRow :: "'d \<Rightarrow> 'd Autocompleter \<Rightarrow> 'd Autocompleter" where
  "appendRow result a =
     a\<lparr>nextRow := Suc (nextRow a),
       listBox := Append (nextRow a) (listBox a),
       listRows := listRows a @ [\<lparr>ListBoxRow = nextRow a, data = result\<rparr>],
       calls := calls a @ [ListAppend (nextRow a)]\<rparr>"

definition listSelect :: "widget \<Rightarrow> 'd Autocompleter \<Rightarrow> 'd Autocompleter" where
  "listSelect w a = emit (ListSelectRow w) (a\<lparr>listBox := SelectRow w (listBox a)\<rparr>)"

text \<open>
  Lines 308-343, with the iterators at \<open>st\<close> and \<open>e\<close>: the contexts are derived, the
  searcher is called, the rows are built, the first row is selected and the popover is
  shown. The deferred cancel of the timeout context runs when the function returns.
\<close>

definition search ::
  "'d Searcher \<Rightarrow> rune list \<Rightarrow> nat \<Rightarrow> nat \<Rightarrow> 'd Autocompleter \<Rightarrow> 'd Autocompleter" where
  "search searcher query st e a0 =
     (let (ctx, a) =
            (if cancelOnChange a0
             then (CancelCtx (nextCtx a0),
                   emit (CtxWithCancel (nextCtx a0))
                     (a0\<lparr>cancel := Some (nextCtx a0), nextCtx := Suc (nextCtx a0)\<rparr>))
             else (ParentCtx, a0));
          ctx = ValueCtx ctx \<lparr>Start = st, End = e\<rparr>;
          tid = nextCtx a;
          searchCtx = TimerCtx tid ctx (timeout a);
          a = emit (CtxWithTimeout tid ctx (timeout a)) (a\<lparr>nextCtx := Suc tid\<rparr>);
          results = Search searcher searchCtx query;
          a = emit (SearchCall (Rune searcher) searchCtx query) a
      in emit (CtxCancel tid)
           (if length results = 0 then hide a
            else (let a = fold appendRow results a;
                      a = listSelect (ListBoxRow (listRows a ! 0)) a
                  in show' a)))"

definition Autocomplete :: "'d Autocompleter \<Rightarrow> 'd Autocompleter" where
  "Autocomplete a0 =
     (let a = clear (cancelPrevious a0) in
      if paused a then hide a
      else
        (let cursor = cursor_position (buffer a);
             txt = content (buffer a);
             a = a\<lparr>start := Some (IterAtOffset (buffer a) cursor),
                    end' := Some (IterAtOffset (buffer a) cursor)\<rparr>;
             (found, st, searcher) =
                BackwardFindChar (findPred (searchers a)) txt (IterAtOffset (buffer a) cursor) None;
             a = a\<lparr>start := Some st\<rparr>
         in case (if \<not> found \<or> searcher = None then searchers a WhitespaceRune else searcher) of
              None \<Rightarrow> hide a
            | Some searcher \<Rightarrow>
               (let st = ForwardChar txt st;
                    (fnd, e) = ForwardFindChar IsSpace txt (IterAtOffset (buffer a) cursor);
                    e = (if fnd then BackwardChar e else e);
                    a = a\<lparr>start := Some st, end' := Some e\<rparr>;
                    query = Text (buffer a) st e
                in if int (length query) < minChars a then hide a
                   else search searcher query (BackwardChar st) e
                          (a\<lparr>start := Some (BackwardChar st)\<rparr>))))"

subsection \<open>Selection and navigation\<close>

text \<open>
  One selection callback is called with the bounds as the iterators stand and the
  candidate; the buffer and the iterators are as the callback leaves them (a nil
  iterator stays nil).
\<close>

definition callOnSelect ::
  "'d SelectedFunc \<Rightarrow> nat \<Rightarrow> 'd \<Rightarrow> 'd Autocompleter \<Rightarrow> bool \<times> 'd Autocompleter" where
  "callOnSelect onSelect i d a =
     (let sd = \<lparr>Bounds = (start a, end' a), Data = d\<rparr>;
          (handled, b, s, e) = onSelect sd (buffer a)
      in (handled,
          emit (OnSelectCall i sd)
            (a\<lparr>buffer := b,
               start := map_option (\<lambda>_. s) (start a),
               end' := map_option (\<lambda>_. e) (end' a)\<rparr>)))"

text \<open>\<open>a.buffer.Insert(data.Bounds[1], " ")\<close>: the iterator is left after the inserted
  text.\<close>

definition insertSpace :: "'d Autocompleter \<Rightarrow> panic + 'd Autocompleter" where
  "insertSpace a =
     (case end' a of
        None \<Rightarrow> Inl NilIter
      | Some e \<Rightarrow>
          Inr (emit (BufferInsert e [WhitespaceRune])
                 (a\<lparr>buffer := Insert e [WhitespaceRune] (buffer a), end' := Some (Suc e)\<rparr>)))"

text \<open>The loop of lines 370-376 over the callbacks from the \<open>i\<close>-th on.\<close>

fun runOnSelects ::
  "'d SelectedFunc list \<Rightarrow> nat \<Rightarrow> 'd \<Rightarrow> 'd Autocompleter \<Rightarrow> panic + 'd Autocompleter" where
  "runOnSelects [] i d a = Inr a"
| "runOnSelects (onSelect # rest) i d a =
     (case callOnSelect onSelect i d a of
        (True, a1) \<Rightarrow>
          (case insertSpace a1 of Inl p \<Rightarrow> Inl p | Inr a2 \<Rightarrow> Inr (snd (Clear a2)))
      | (False, a1) \<Rightarrow> runOnSelects rest (Suc i) d a1)"

definition selectRow :: "widget option \<Rightarrow> 'd Autocompleter \<Rightarrow> panic + 'd Autocompleter" where
  "selectRow r a =
     (case r of
        None \<Rightarrow> Inr (snd (Clear a))
      | Some w \<Rightarrow>
          (let ix = Index (listBox a) w in
           if ix < 0 \<or> int (length (listRows a)) \<le> ix then Inl IndexOutOfRange
           else runOnSelects (onSelects a) 0 (data (listRows a ! nat ix)) a))"

definition Select :: "'d Autocompleter \<Rightarrow> panic + bool \<times> 'd Autocompleter" where
  "Select a =
     (if length (listRows a) = 0 \<or> \<not> IsVisible a then Inr (False, a)
      else (case selectRow (selected (listBox a)) a of
              Inl p \<Rightarrow> Inl p
            | Inr a' \<Rightarrow> Inr (True, a')))"

text \<open>
  \<open>move\<close>: the index arithmetic is on Go's \<open>int\<close>. The focus hand-over at the end of
  the function touches neither the list nor the selection and is left out.
\<close>

definition move :: "bool \<Rightarrow> 'd Autocompleter \<Rightarrow> panic + bool \<times> 'd Autocompleter" where
  "move down a =
     (if length (listRows a) = 0 then Inr (False, a)
      else
        (case selected (listBox a) of
           None \<Rightarrow> Inr (True, listSelect (ListBoxRow (listRows a ! 0)) a)
         | Some w \<Rightarrow>
            (let ix = Index (listBox a) w;
                 ix = (if down
                       then (if ix + 1 = int (length (listRows a)) then 0 else ix + 1)
                       else (if ix - 1 = -1 then int (length (listRows a)) - 1 else ix - 1))
             in if ix < 0 \<or> int (length (listRows a)) \<le> ix then Inl IndexOutOfRange
                else Inr (True, listSelect (ListBoxRow (listRows a ! nat ix)) a))))"

definition MoveUp :: "'d Autocompleter \<Rightarrow> panic + bool \<times> 'd Autocompleter" where
  "MoveUp a = move False a"

definition MoveDown :: "'d Autocompleter \<Rightarrow> panic + bool \<times> 'd Autocompleter" where
  "MoveDown a = move True a"

subsection \<open>Sequences of operations\<close>

text \<open>
  What can happen to an autocompleter: a call of a method, the user editing the buffer
  or moving the cursor, a click on the row at some position of the list box (the
  row-activated signal), the unmap signal. A run stops at the first panic.
\<close>

datatype 'd op =
    OpAutocomplete
  | OpClear
  | OpPause
  | OpUnpause
  | OpSelect
  | OpMoveUp
  | OpMoveDown
  | OpUse "'d Searcher list"
  | OpAddSelectedFunc "'d SelectedFunc"
  | OpSetMinLength int
  | OpSetCancelOnChange bool
  | OpSetTimeout int
  | OpEdit "rune list" nat
  | OpRowActivated nat
  | OpUnmap

fun apply_op :: "'d op \<Rightarrow> 'd Autocompleter \<Rightarrow> panic + 'd Autocompleter" where
  "apply_op OpAutocomplete a = Inr (Autocomplete a)"
| "apply_op OpClear a = Inr (snd (Clear a))"
| "apply_op OpPause a = Inr (Pause a)"
| "apply_op OpUnpause a = Inr (Unpause a)"
| "apply_op OpSelect a = map_sum id snd (Select a)"
| "apply_op OpMoveUp a = map_sum id snd (MoveUp a)"
| "apply_op OpMoveDown a = map_sum id snd (MoveDown a)"
| "apply_op (OpUse ss) a = Use ss a"
| "apply_op (OpAddSelectedFunc f) a = Inr (AddSelectedFunc f a)"
| "apply_op (OpSetMinLength n) a = Inr (SetMinLength n a)"
| "apply_op (OpSetCancelOnChange v) a = Inr (SetCancelOnChange v a)"
| "apply_op (OpSetTimeout d) a = Inr (SetTimeout d a)"
| "apply_op (OpEdit txt c) a =
     Inr (a\<lparr>buffer := \<lparr>content = txt, cursor_position = min c (length txt)\<rparr>\<rparr>)"
| "apply_op (OpRowActivated i) a =
     (if i < length (children (listBox a)) then selectRow (Some (children (listBox a) ! i)) a
      else Inr a)"
| "apply_op OpUnmap a = Inr (Unmap a)"

fun run :: "'d op list \<Rightarrow> 'd Autocompleter \<Rightarrow> panic + 'd Autocompleter" where
  "run [] a = Inr a"
| "run (x # xs) a = (case apply_op x a of Inl p \<Rightarrow> Inl p | Inr a' \<Rightarrow> run xs a')"

section \<open>The viewer: saving the picture to a file\<close>

text \<open>
  What \<open>saveToFile\<close> touches: the toasts added to the viewer's toast overlay, the files
  of the file system, the lines printed, and the calls made on the network and the file
  system, in program order.
\<close>

datatype io_call =
    HttpGet string
  | OsCreate string
  | IoCopy string
  | BodyClose
  | FileClose string

record Viewer =
  toasts :: "string list"
  files :: "string \<rightharpoonup> nat list"
  stdout :: "string list"
  io_calls :: "io_call list"

text \<open>
  The outcomes of the calls, which the program does not decide: \<open>http.Get\<close> gives an
  error or the response body, \<open>os.Create\<close> may give an error, \<open>io.Copy\<close> writes some
  bytes of the body and may give an error.
\<close>

record Outcomes =
  httpGet :: "string \<Rightarrow> string + nat list"
  osCreate :: "string \<Rightarrow> string option"
  ioCopy :: "nat list \<Rightarrow> nat list \<times> string option"

definition AddToast :: "string \<Rightarrow> Viewer \<Rightarrow> Viewer" where
  "AddToast msg v = v\<lparr>toasts := toasts v @ [msg]\<rparr>"

definition Println :: "string \<Rightarrow> string \<Rightarrow> Viewer \<Rightarrow> Viewer" where
  "Println msg err v = v\<lparr>stdout := stdout v @ [msg @ '' '' @ err]\<rparr>"

definition io :: "io_call \<Rightarrow> Viewer \<Rightarrow> Viewer" where
  "io c v = v\<lparr>io_calls := io_calls v @ [c]\<rparr>"

text \<open>\<open>saveToFile\<close> returns nothing; the deferred closes run when it returns.\<close>

definition saveToFile :: "Outcomes \<Rightarrow> string \<Rightarrow> string \<Rightarrow> Viewer \<Rightarrow> Viewer" where
  "saveToFile env outPath pictureURL v0 =
     (let v = io (HttpGet pictureURL) v0 in
      case httpGet env pictureURL of
        Inl err \<Rightarrow>
          Println ''An error occured while downloading picture data:'' err
            (AddToast ''An error occured while downloading picture data'' v)
      | Inr body \<Rightarrow>
          (let v = io (OsCreate outPath) v in
           case osCreate env outPath of
             Some err \<Rightarrow>
               io BodyClose
                 (Println ''An I/O error occurred while creating the output file:'' err
                    (AddToast ''An I/O error occurred while creating the output file'' v))
           | None \<Rightarrow>
               (let v = v\<lparr>files := (files v)(outPath \<mapsto> [])\<rparr>;
                    (written, res) = ioCopy env body;
                    v = io (IoCopy outPath) (v\<lparr>files := (files v)(outPath \<mapsto> written)\<rparr>)
                in io BodyClose (io (FileClose outPath)
                     (case res of
                        Some err \<Rightarrow>
                          Println ''An I/O error occurred while saving the file:'' err
                            (AddToast ''An I/O error occurred while saving the file'' v)
                      | None \<Rightarrow> AddToast ''Picture saved successfully'' v)))))"

section \<open>Properties of the states and of the calls\<close>

subsection \<open>The rows and the popover\<close>

text \<open>
  \<open>rowsInv\<close>: the list box holds exactly the rows of \<open>listRows\<close>, in order and without
  repetition, every row identity is older than the next fresh one, and the selected row
  is one of them. \<open>visInv\<close>: the \<open>poppedUp\<close> flag mirrors the popover, the popover is
  shown exactly when there are rows, a paused autocompleter has no rows, and the two
  iterators are set whenever there are rows.
\<close>

definition rowsInv :: "'d Autocompleter \<Rightarrow> bool" where
  "rowsInv a \<longleftrightarrow>
     children (listBox a) = map ListBoxRow (listRows a)
   \<and> distinct (children (listBox a))
   \<and> (\<forall>w \<in> set (children (listBox a)). w < nextRow a)
   \<and> (\<forall>w \<in> set_option (selected (listBox a)). w \<in> set (children (listBox a)))"

definition visInv :: "'d Autocompleter \<Rightarrow> bool" where
  "visInv a \<longleftrightarrow>
     popover a = poppedUp a
   \<and> (popover a \<longleftrightarrow> listRows a \<noteq> [])
   \<and> (paused a \<longrightarrow> listRows a = [])
   \<and> (listRows a \<noteq> [] \<longrightarrow> start a \<noteq> None \<and> end' a \<noteq> None)"

definition stateInv :: "'d Autocompleter \<Rightarrow> bool" where
  "stateInv a \<longleftrightarrow> rowsInv a \<and> visInv a"

subsection \<open>The contexts derived so far\<close>

text \<open>
  From the calls made so far: the contexts derived (\<open>created\<close>), whether a context is
  cancelled (its own cancel function or that of an ancestor was called), and the
  contexts still \<open>live\<close>. A search session is the chain of contexts one call of
  \<open>Autocomplete\<close> derives: the cancellable context (when \<open>cancelOnChange\<close> is set) and the
  timeout context the searcher runs under. Two contexts are of the same session
  (\<open>sameSession\<close>) when one is the other or an ancestor of it. \<open>sessionsOK\<close> says that at
  most one context of each kind is live and that all live contexts are of the same
  session; \<open>alwaysOK\<close> says so of every prefix of the calls, that is, at every moment.
  Deadlines are left out: an expired context only leaves fewer contexts live.
\<close>

fun ctxIds :: "Context \<Rightarrow> nat list" where
  "ctxIds ParentCtx = []"
| "ctxIds (CancelCtx n) = [n]"
| "ctxIds (ValueCtx c d) = ctxIds c"
| "ctxIds (TimerCtx n c t) = n # ctxIds c"

fun isCtx :: "'d call \<Rightarrow> bool" where
  "isCtx (CtxCancel n) = True"
| "isCtx (CtxWithCancel n) = True"
| "isCtx (CtxWithTimeout n p t) = True"
| "isCtx c = False"

fun created :: "'d call list \<Rightarrow> Context list" where
  "created [] = []"
| "created (CtxWithCancel n # cs) = CancelCtx n # created cs"
| "created (CtxWithTimeout n p t # cs) = TimerCtx n p t # created cs"
| "created (c # cs) = created cs"

definition cancelled :: "'d call list \<Rightarrow> Context \<Rightarrow> bool" where
  "cancelled cs x \<longleftrightarrow> (\<exists>i \<in> set (ctxIds x). CtxCancel i \<in> set cs)"

definition live :: "'d call list \<Rightarrow> Context list" where
  "live cs = filter (\<lambda>x. \<not> cancelled cs x) (created cs)"

fun isCancelCtx :: "Context \<Rightarrow> bool" where
  "isCancelCtx (CancelCtx n) = True"
| "isCancelCtx c = False"

fun isTimerCtx :: "Context \<Rightarrow> bool" where
  "isTimerCtx (TimerCtx n c t) = True"
| "isTimerCtx c = False"

definition sameSession :: "Context \<Rightarrow> Context \<Rightarrow> bool" where
  "sameSession x y \<longleftrightarrow>
     set (ctxIds x) \<subseteq> set (ctxIds y) \<or> set (ctxIds y) \<subseteq> set (ctxIds x)"

definition sessionsOK :: "'d call list \<Rightarrow> bool" where
  "sessionsOK cs \<longleftrightarrow>
     length (filter isCancelCtx (live cs)) \<le> 1
   \<and> length (filter isTimerCtx (live cs)) \<le> 1
   \<and> (\<forall>x \<in> set (live cs). \<forall>y \<in> set (live cs). sameSession x y)"

definition alwaysOK :: "'d call list \<Rightarrow> bool" where
  "alwaysOK cs \<longleftrightarrow> (\<forall>p \<in> set (prefixes cs). sessionsOK p)"

definition ctxCalls :: "'d Autocompleter \<Rightarrow> 'd call list" where
  "ctxCalls a = filter isCtx (calls a)"

definition ctxView :: "'d Autocompleter \<Rightarrow> 'd call list \<times> nat option \<times> nat" where
  "ctxView a = (ctxCalls a, cancel a, nextCtx a)"

definition ctxInvL :: "Context list \<Rightarrow> 'd Autocompleter \<Rightarrow> bool" where
  "ctxInvL L a \<longleftrightarrow>
     (\<forall>i. CtxCancel i \<in> set (ctxCalls a) \<longrightarrow> i < nextCtx a)
   \<and> (\<forall>c \<in> set_option (cancel a). c < nextCtx a)
   \<and> live (ctxCalls a) = L
   \<and> alwaysOK (ctxCalls a)"

definition ctxInv :: "'d Autocompleter \<Rightarrow> bool" where
  "ctxInv a \<longleftrightarrow> ctxInvL [] a \<or> (\<exists>c. cancel a = Some c \<and> ctxInvL [CancelCtx c] a)"

subsection \<open>The search under way\<close>

text \<open>
  \<open>searchCtx\<close> is the context \<open>search\<close> hands to the searcher, \<open>searchTid\<close> the identity of
  its timeout context, \<open>searchPrep\<close> the state when the searcher has returned.
  \<open>cancelCalls\<close> is the call lines 244-247 make on the context package (the stored
  cancel function, if there is one); \<open>deriveCalls\<close> are the calls of lines 309-321 with
  the deferred cancel, for the iterators at \<open>st\<close> and \<open>e\<close>.
\<close>

definition searchCtx :: "'d Autocompleter \<Rightarrow> nat \<Rightarrow> nat \<Rightarrow> Context" where
  "searchCtx a st e =
     (if cancelOnChange a
      then TimerCtx (Suc (nextCtx a)) (ValueCtx (CancelCtx (nextCtx a)) \<lparr>Start = st, End = e\<rparr>) (timeout a)
      else TimerCtx (nextCtx a) (ValueCtx ParentCtx \<lparr>Start = st, End = e\<rparr>) (timeout a))"

definition searchTid :: "'d Autocompleter \<Rightarrow> nat" where
  "searchTid a = (if cancelOnChange a then Suc (nextCtx a) else nextCtx a)"

definition searchPrep :: "'d Searcher \<Rightarrow> rune list \<Rightarrow> nat \<Rightarrow> nat \<Rightarrow> 'd Autocompleter \<Rightarrow> 'd Autocompleter" where
  "searchPrep sr q st e a =
     a\<lparr>cancel := (if cancelOnChange a then Some (nextCtx a) else cancel a),
       nextCtx := Suc (searchTid a),
       calls := calls a @ (if cancelOnChange a then [CtxWithCancel (nextCtx a)] else [])
                 @ [CtxWithTimeout (searchTid a)
                      (ValueCtx (if cancelOnChange a then CancelCtx (nextCtx a) else ParentCtx)
                         \<lparr>Start = st, End = e\<rparr>) (timeout a),
                    SearchCall (Rune sr) (searchCtx a st e) q]\<rparr>"

definition cancelCalls :: "'d Autocompleter \<Rightarrow> 'd call list" where
  "cancelCalls a = (case cancel a of None \<Rightarrow> [] | Some c \<Rightarrow> [CtxCancel c])"

definition deriveCalls :: "'d Autocompleter \<Rightarrow> nat \<Rightarrow> nat \<Rightarrow> 'd call list" where
  "deriveCalls a st e =
     (if cancelOnChange a then [CtxWithCancel (nextCtx a)] else [])
     @ [CtxWithTimeout (searchTid a)
          (ValueCtx (if cancelOnChange a then CancelCtx (nextCtx a) else ParentCtx)
             \<lparr>Start = st, End = e\<rparr>) (timeout a),
        CtxCancel (searchTid a)]"

subsection \<open>Reading the calls\<close>

text \<open>
  \<open>isSearchCall\<close> picks the calls of a searcher, \<open>onSelectIndices\<close> the positions (in
  registration order) of the selection callbacks called, \<open>bufferInserts\<close> the insertions
  into the buffer. \<open>passAll\<close> is the state after the given callbacks have been called one
  after the other from position \<open>i\<close>, \<open>allDecline\<close> says that each of them returned false
  when so called.
\<close>

fun isSearchCall :: "'d call \<Rightarrow> bool" where
  "isSearchCall (SearchCall r c q) = True"
| "isSearchCall c = False"

fun onSelectIndices :: "'d call list \<Rightarrow> nat list" where
  "onSelectIndices [] = []"
| "onSelectIndices (OnSelectCall i sd # cs) = i # onSelectIndices cs"
| "onSelectIndices (c # cs) = onSelectIndices cs"

fun bufferInserts :: "'d call list \<Rightarrow> (nat \<times> rune list) list" where
  "bufferInserts [] = []"
| "bufferInserts (BufferInsert i s # cs) = (i, s) # bufferInserts cs"
| "bufferInserts (c # cs) = bufferInserts cs"

fun passAll :: "'d SelectedFunc list \<Rightarrow> nat \<Rightarrow> 'd \<Rightarrow> 'd Autocompleter \<Rightarrow> 'd Autocompleter" where
  "passAll [] i d a = a"
| "passAll (f # fs) i d a = passAll fs (Suc i) d (snd (callOnSelect f i d a))"

fun allDecline :: "'d SelectedFunc list \<Rightarrow> nat \<Rightarrow> 'd \<Rightarrow> 'd Autocompleter \<Rightarrow> bool" where
  "allDecline [] i d a = True"
| "allDecline (f # fs) i d a =
     (\<not> fst (callOnSelect f i d a) \<and> allDecline fs (Suc i) d (snd (callOnSelect f i d a)))"

section \<open>An example\<close>

text \<open>
  The buffer \<open>hello @world foo\<close> with the cursor between \<open>r\<close> and \<open>l\<close> (offset 10), a
  searcher for the rune \<open>@\<close> (64) that returns three candidates, one that returns nine,
  a selection callback that declines and one that accepts, and the minimum length 1.
  \<open>ex_mixed\<close> is the state after one \<open>Autocomplete\<close> with \<open>cancelOnChange\<close> set and the
  flag reset afterwards: its stored cancel function is that of the first session.
\<close>

definition ex_searcher :: "nat Searcher" where
  "ex_searcher = \<lparr>Rune = 64, Search = (\<lambda>c q. [1, 2, 3])\<rparr>"

definition ex_searcher9 :: "nat Searcher" where
  "ex_searcher9 = \<lparr>Rune = 64, Search = (\<lambda>c q. [1, 2, 3, 4, 5, 6, 7, 8, 9])\<rparr>"

definition ex_text :: "rune list" where
  "ex_text = runes ''hello @world foo''"

definition ex_buffer :: TextBuffer where
  "ex_buffer = \<lparr>content = ex_text, cursor_position = 10\<rparr>"

definition ex_decline :: "nat SelectedFunc" where
  "ex_decline = (\<lambda>sd b. (False, b, 6, 11))"

definition ex_accept :: "nat SelectedFunc" where
  "ex_accept = (\<lambda>sd b. (True, b, 6, 11))"

definition ex_setup :: "nat op list" where
  "ex_setup = [OpUse [ex_searcher], OpSetMinLength 1,
               OpAddSelectedFunc ex_decline, OpAddSelectedFunc ex_accept]"

definition ex_ready :: "nat Autocompleter" where
  "ex_ready = (New ex_buffer)\<lparr>onSelects := [ex_decline, ex_accept],
                searchers := [64 \<mapsto> ex_searcher], minChars := 1\<rparr>"

definition ex_shown :: "nat Autocompleter" where
  "ex_shown = Autocomplete ex_ready"

definition ex_ready9 :: "nat Autocompleter" where
  "ex_ready9 = (New ex_buffer)\<lparr>searchers := [64 \<mapsto> ex_searcher9], minChars := 1\<rparr>"

definition ex_shown9 :: "nat Autocompleter" where
  "ex_shown9 = Autocomplete ex_ready9"

definition ex_once :: "nat Autocompleter" where
  "ex_once = Autocomplete (SetCancelOnChange True ex_ready)"

definition ex_mixed :: "nat Autocompleter" where
  "ex_mixed = SetCancelOnChange False (Autocomplete (SetCancelOnChange True ex_ready))"

section \<open>Lemmas\<close>

subsection \<open>What each step changes\<close>

lemma fold_remove1_prefix: "fold remove1 xs (xs @ ys) = ys"
  by (induction xs) simp_all

lemma children_fold_Remove: "children (fold Remove ws lb) = fold remove1 ws (children lb)"
  by (induction ws arbitrary: lb) (simp_all add: Remove_def)

lemma selected_fold_Remove:
  "selected (fold Remove ws lb) = (case selected lb of None \<Rightarrow> None | Some w \<Rightarrow> if w \<in> set ws then None else Some w)"
  by (induction ws arbitrary: lb) (auto simp: Remove_def split: option.splits)

lemma emit_fields [simp]:
  "buffer (emit c a) = buffer a" "start (emit c a) = start a" "end' (emit c a) = end' a"
  "onSelects (emit c a) = onSelects a" "popover (emit c a) = popover a"
  "listBox (emit c a) = listBox a" "listRows (emit c a) = listRows a"
  "searchers (emit c a) = searchers a" "cancel (emit c a) = cancel a"
  "minChars (emit c a) = minChars a" "timeout (emit c a) = timeout a"
  "poppedUp (emit c a) = poppedUp a" "cancelOnChange (emit c a) = cancelOnChange a"
  "paused (emit c a) = paused a" "nextCtx (emit c a) = nextCtx a"
  "nextRow (emit c a) = nextRow a" "calls (emit c a) = calls a @ [c]"
  by (simp_all add: emit_def)

lemma cancelPrevious_fields [simp]:
  "buffer (cancelPrevious a) = buffer a" "start (cancelPrevious a) = start a"
  "end' (cancelPrevious a) = end' a"
  "onSelects (cancelPrevious a) = onSelects a" "popover (cancelPrevious a) = popover a"
  "listBox (cancelPrevious a) = listBox a" "listRows (cancelPrevious a) = listRows a"
  "searchers (cancelPrevious a) = searchers a" "cancel (cancelPrevious a) = None"
  "minChars (cancelPrevious a) = minChars a" "timeout (cancelPrevious a) = timeout a"
  "poppedUp (cancelPrevious a) = poppedUp a"
  "cancelOnChange (cancelPrevious a) = cancelOnChange a"
  "paused (cancelPrevious a) = paused a" "nextCtx (cancelPrevious a) = nextCtx a"
  "nextRow (cancelPrevious a) = nextRow a"
  by (simp_all add: cancelPrevious_def split: option.splits)

lemma clear_fields [simp]:
  "buffer (clear a) = buffer a" "start (clear a) = start a" "end' (clear a) = end' a"
  "onSelects (clear a) = onSelects a" "popover (clear a) = popover a"
  "listRows (clear a) = []"
  "searchers (clear a) = searchers a" "cancel (clear a) = cancel a"
  "minChars (clear a) = minChars a" "timeout (clear a) = timeout a"
  "poppedUp (clear a) = poppedUp a" "cancelOnChange (clear a) = cancelOnChange a"
  "paused (clear a) = paused a" "nextCtx (clear a) = nextCtx a"
  "nextRow (clear a) = nextRow a"
  "calls (clear a) = calls a @ map ListRemove (map ListBoxRow (listRows a))"
  by (simp_all add: clear_def)

lemma hide_fields [simp]:
  "buffer (hide a) = buffer a" "start (hide a) = start a" "end' (hide a) = end' a"
  "onSelects (hide a) = onSelects a" "popover (hide a) = (popover a \<and> \<not> poppedUp a)"
  "listBox (hide a) = listBox a" "listRows (hide a) = listRows a"
  "searchers (hide a) = searchers a" "cancel (hide a) = cancel a"
  "minChars (hide a) = minChars a" "timeout (hide a) = timeout a"
  "poppedUp (hide a) = False" "cancelOnChange (hide a) = cancelOnChange a"
  "paused (hide a) = paused a" "nextCtx (hide a) = nextCtx a"
  "nextRow (hide a) = nextRow a"
  "calls (hide a) = calls a @ (if poppedUp a then [PopoverPopdown] else [])"
  by (simp_all add: hide_def)

lemma show_fields [simp]:
  "buffer (show' a) = buffer a" "start (show' a) = start a" "end' (show' a) = end' a"
  "onSelects (show' a) = onSelects a" "popover (show' a) = (popover a \<or> \<not> poppedUp a)"
  "listBox (show' a) = listBox a" "listRows (show' a) = listRows a"
  "searchers (show' a) = searchers a" "cancel (show' a) = cancel a"
  "minChars (show' a) = minChars a" "timeout (show' a) = timeout a"
  "poppedUp (show' a) = True" "cancelOnChange (show' a) = cancelOnChange a"
  "paused (show' a) = paused a" "nextCtx (show' a) = nextCtx a"
  "nextRow (show' a) = nextRow a"
  "calls (show' a) = calls a @ (if poppedUp a then [] else [PopoverPopup])"
  by (simp_all add: show'_def)

lemma listSelect_fields [simp]:
  "buffer (listSelect w a) = buffer a" "start (listSelect w a) = start a"
  "end' (listSelect w a) = end' a"
  "onSelects (listSelect w a) = onSelects a" "popover (listSelect w a) = popover a"
  "children (listBox (listSelect w a)) = children (listBox a)"
  "selected (listBox (listSelect w a)) = Some w"
  "listRows (listSelect w a) = listRows a"
  "searchers (listSelect w a) = searchers a" "cancel (listSelect w a) = cancel a"
  "minChars (listSelect w a) = minChars a" "timeout (listSelect w a) = timeout a"
  "poppedUp (listSelect w a) = poppedUp a"
  "cancelOnChange (listSelect w a) = cancelOnChange a"
  "paused (listSelect w a) = paused a" "nextCtx (listSelect w a) = nextCtx a"
  "nextRow (listSelect w a) = nextRow a"
  "calls (listSelect w a) = calls a @ [ListSelectRow w]"
  by (simp_all add: listSelect_def SelectRow_def)

lemma appendRow_fields [simp]:
  "buffer (appendRow r a) = buffer a" "start (appendRow r a) = start a"
  "end' (appendRow r a) = end' a"
  "onSelects (appendRow r a) = onSelects a" "popover (appendRow r a) = popover a"
  "searchers (appendRow r a) = searchers a" "cancel (appendRow r a) = cancel a"
  "minChars (appendRow r a) = minChars a" "timeout (appendRow r a) = timeout a"
  "poppedUp (appendRow r a) = poppedUp a"
  "cancelOnChange (appendRow r a) = cancelOnChange a"
  "paused (appendRow r a) = paused a" "nextCtx (appendRow r a) = nextCtx a"
  "nextRow (appendRow r a) = Suc (nextRow a)"
  "selected (listBox (appendRow r a)) = selected (listBox a)"
  "children (listBox (appendRow r a)) = children (listBox a) @ [nextRow a]"
  "listRows (appendRow r a) = listRows a @ [\<lparr>ListBoxRow = nextRow a, data = r\<rparr>]"
  "calls (appendRow r a) = calls a @ [ListAppend (nextRow a)]"
  by (simp_all add: appendRow_def Append_def)

lemma fold_appendRow_fields [simp]:
  "buffer (fold appendRow rs a) = buffer a" "start (fold appendRow rs a) = start a"
  "end' (fold appendRow rs a) = end' a"
  "onSelects (fold appendRow rs a) = onSelects a" "popover (fold appendRow rs a) = popover a"
  "searchers (fold appendRow rs a) = searchers a" "cancel (fold appendRow rs a) = cancel a"
  "minChars (fold appendRow rs a) = minChars a" "timeout (fold appendRow rs a) = timeout a"
  "poppedUp (fold appendRow rs a) = poppedUp a"
  "cancelOnChange (fold appendRow rs a) = cancelOnChange a"
  "paused (fold appendRow rs a) = paused a" "nextCtx (fold appendRow rs a) = nextCtx a"
  "nextRow (fold appendRow rs a) = nextRow a + length rs"
  "selected (listBox (fold appendRow rs a)) = selected (listBox a)"
  by (induction rs arbitrary: a; simp)+

lemma fold_appendRow_rows:
  "map ListBoxRow (listRows (fold appendRow rs a))
     = map ListBoxRow (listRows a) @ [nextRow a ..< nextRow a + length rs]"
  "map data (listRows (fold appendRow rs a)) = map data (listRows a) @ rs"
  "children (listBox (fold appendRow rs a))
     = children (listBox a) @ [nextRow a ..< nextRow a + length rs]"
  "calls (fold appendRow rs a) = calls a @ map ListAppend [nextRow a ..< nextRow a + length rs]"
  by (induction rs rule: rev_induct; simp)+

lemma length_fold_appendRow [simp]:
  "length (listRows (fold appendRow rs a)) = length (listRows a) + length rs"
  by (induction rs rule: rev_induct) simp_all

lemma clear_listBox:
  assumes "rowsInv a"
  shows "children (listBox (clear a)) = []" "selected (listBox (clear a)) = None"
  using assms fold_remove1_prefix [of "map ListBoxRow (listRows a)" "[]"]
  by (auto simp: rowsInv_def clear_def children_fold_Remove selected_fold_Remove split: option.splits)

lemma rowsInv_clear: "rowsInv a \<Longrightarrow> rowsInv (clear a)"
  by (simp add: rowsInv_def [of "clear a"] clear_listBox)

lemma BackwardFindChar_findPred:
  "BackwardFindChar (findPred m) txt i s0 = (found, st, r) \<Longrightarrow> r = s0 \<or> (\<exists>k. m k = r)"
proof (induction i arbitrary: s0)
  case 0
  then show ?case by simp
next
  case (Suc i)
  obtain h s1 where fp: "findPred m (txt ! i) s0 = (h, s1)" by (cases "findPred m (txt ! i) s0")
  then have s1: "\<exists>k. m k = s1" by (auto simp add: findPred_def split: if_splits)
  show ?case
  proof (cases h)
    case True
    then have "r = s1" using Suc.prems fp by simp
    then show ?thesis using s1 by simp
  next
    case False
    then have "BackwardFindChar (findPred m) txt i s1 = (found, st, r)"
      using Suc.prems fp by simp
    from Suc.IH [OF this] s1 show ?thesis by auto
  qed
qed

lemma Autocomplete_cases:
  obtains (hidden) s e where
      "Autocomplete a = hide ((clear (cancelPrevious a))\<lparr>start := s, end' := e\<rparr>)"
  | (searched) sr q st e where
      "\<not> paused a"
      "Autocomplete a = search sr q st e ((clear (cancelPrevious a))\<lparr>end' := Some e, start := Some st\<rparr>)"
      "\<exists>k. searchers a k = Some sr"
proof -
  let ?a1 = "clear (cancelPrevious a)"
  let ?c = "IterAtOffset (buffer a) (cursor_position (buffer a))"
  obtain found st sr where bf:
    "BackwardFindChar (findPred (searchers a)) (content (buffer a)) ?c None = (found, st, sr)"
    by (metis prod_cases3)
  obtain fnd e0 where ff: "ForwardFindChar IsSpace (content (buffer a)) ?c = (fnd, e0)"
    by (metis surj_pair)
  define pick where "pick = (if \<not> found \<or> sr = None then searchers a WhitespaceRune else sr)"
  define st1 where "st1 = ForwardChar (content (buffer a)) st"
  define e where "e = (if fnd then BackwardChar e0 else e0)"
  show thesis
  proof (cases "paused a")
    case True
    then have "Autocomplete a = hide (?a1\<lparr>start := start ?a1, end' := end' ?a1\<rparr>)"
      by (simp add: Autocomplete_def Let_def)
    then show ?thesis by (rule hidden)
  next
    case np: False
    show ?thesis
    proof (cases pick)
      case None
      then have "Autocomplete a = hide (?a1\<lparr>start := Some st, end' := Some ?c\<rparr>)"
        using np unfolding pick_def
        by (auto simp add: Autocomplete_def Let_def bf ff split: if_splits)
      then show ?thesis by (rule hidden)
    next
      case (Some s)
      show ?thesis
      proof (cases "int (length (Text (buffer a) st1 e)) < minChars a")
        case True
        then have "Autocomplete a = hide (?a1\<lparr>start := Some st1, end' := Some e\<rparr>)"
          using np Some unfolding pick_def st1_def e_def
          by (auto simp add: Autocomplete_def Let_def bf ff split: if_splits)
        then show ?thesis by (rule hidden)
      next
        case False
        then have "Autocomplete a = search s (Text (buffer a) st1 e) (BackwardChar st1) e
                      (?a1\<lparr>end' := Some e, start := Some (BackwardChar st1)\<rparr>)"
          using np Some unfolding pick_def st1_def e_def
          by (auto simp add: Autocomplete_def Let_def bf ff split: if_splits)
        moreover have "\<exists>k. searchers a k = Some s"
        proof (cases "\<not> found \<or> sr = None")
          case True
          then show ?thesis using Some unfolding pick_def by auto
        next
          case False
          then have "sr = Some s" using Some unfolding pick_def by (auto split: if_splits)
          then show ?thesis using BackwardFindChar_findPred [OF bf] by auto
        qed
        ultimately show ?thesis using np by (intro searched)
      qed
    qed
  qed
qed

subsection \<open>The search\<close>

lemma search_eq:
  "search sr q st e a =
     emit (CtxCancel (searchTid a))
       (if Search sr (searchCtx a st e) q = [] then hide (searchPrep sr q st e a)
        else show' (listSelect
                     (ListBoxRow (listRows (fold appendRow (Search sr (searchCtx a st e) q)
                                              (searchPrep sr q st e a)) ! 0))
                     (fold appendRow (Search sr (searchCtx a st e) q) (searchPrep sr q st e a))))"
  by (cases "cancelOnChange a")
     (simp_all add: search_def searchCtx_def searchTid_def searchPrep_def Let_def emit_def)

lemma searchPrep_fields [simp]:
  "buffer (searchPrep sr q st e a) = buffer a" "start (searchPrep sr q st e a) = start a"
  "end' (searchPrep sr q st e a) = end' a"
  "onSelects (searchPrep sr q st e a) = onSelects a"
  "popover (searchPrep sr q st e a) = popover a"
  "listBox (searchPrep sr q st e a) = listBox a"
  "listRows (searchPrep sr q st e a) = listRows a"
  "searchers (searchPrep sr q st e a) = searchers a"
  "minChars (searchPrep sr q st e a) = minChars a"
  "timeout (searchPrep sr q st e a) = timeout a"
  "poppedUp (searchPrep sr q st e a) = poppedUp a"
  "cancelOnChange (searchPrep sr q st e a) = cancelOnChange a"
  "paused (searchPrep sr q st e a) = paused a"
  "nextRow (searchPrep sr q st e a) = nextRow a"
  "nextCtx (searchPrep sr q st e a) = Suc (searchTid a)"
  "cancel (searchPrep sr q st e a) = (if cancelOnChange a then Some (nextCtx a) else cancel a)"
  by (simp_all add: searchPrep_def)

lemma search_rows:
  "map data (listRows (search sr q st e a))
     = map data (listRows a) @ Search sr (searchCtx a st e) q"
  "map ListBoxRow (listRows (search sr q st e a))
     = map ListBoxRow (listRows a) @ [nextRow a ..< nextRow a + length (Search sr (searchCtx a st e) q)]"
  "children (listBox (search sr q st e a))
     = children (listBox a) @ [nextRow a ..< nextRow a + length (Search sr (searchCtx a st e) q)]"
  "nextRow (search sr q st e a) = nextRow a + length (Search sr (searchCtx a st e) q)"
  by (simp_all add: search_eq fold_appendRow_rows)

lemma search_fields [simp]:
  "buffer (search sr q st e a) = buffer a" "start (search sr q st e a) = start a"
  "end' (search sr q st e a) = end' a" "onSelects (search sr q st e a) = onSelects a"
  "searchers (search sr q st e a) = searchers a"
  "minChars (search sr q st e a) = minChars a" "timeout (search sr q st e a) = timeout a"
  "cancelOnChange (search sr q st e a) = cancelOnChange a"
  "paused (search sr q st e a) = paused a"
  "poppedUp (search sr q st e a) = (Search sr (searchCtx a st e) q \<noteq> [])"
  "popover (search sr q st e a)
     = (if Search sr (searchCtx a st e) q = [] then popover a \<and> \<not> poppedUp a
        else popover a \<or> \<not> poppedUp a)"
  "nextCtx (search sr q st e a) = Suc (searchTid a)"
  "cancel (search sr q st e a) = (if cancelOnChange a then Some (nextCtx a) else cancel a)"
  by (simp_all add: search_eq)

lemma listRows_fold_appendRow_ex: "\<exists>ys. listRows (fold appendRow rs b) = listRows b @ ys"
proof (induction rs arbitrary: b)
  case Nil
  then show ?case by simp
next
  case (Cons r rs)
  from Cons [of "appendRow r b"] show ?case by auto
qed

lemma first_row:
  assumes "listRows a = []"
  shows "listRows (fold appendRow (r # rs) a) ! 0 = \<lparr>ListBoxRow = nextRow a, data = r\<rparr>"
proof -
  obtain ys where "listRows (fold appendRow rs (appendRow r a)) = listRows (appendRow r a) @ ys"
    using listRows_fold_appendRow_ex by blast
  with assms show ?thesis by simp
qed

lemma search_first_row:
  assumes "listRows a = []" "Search sr (searchCtx a st e) q = r # rs"
  shows "listRows (search sr q st e a) ! 0 = \<lparr>ListBoxRow = nextRow a, data = r\<rparr>"
    and "selected (listBox (search sr q st e a)) = Some (nextRow a)"
  using assms first_row [of "searchPrep sr q st e a" r rs]
  by (simp_all add: search_eq del: fold_simps)

lemma search_no_rows:
  assumes "Search sr (searchCtx a st e) q = []"
  shows "listRows (search sr q st e a) = listRows a"
    and "listBox (search sr q st e a) = listBox a"
  using assms by (simp_all add: search_eq)

lemma calls_grow: "\<exists>zs. calls (Autocomplete a) = calls a @ zs"
proof (cases a rule: Autocomplete_cases)
  case (hidden s e)
  then show ?thesis by (simp add: cancelPrevious_def split: option.splits)
next
  case (searched sr q st e)
  then show ?thesis
    by (simp add: search_eq searchPrep_def fold_appendRow_rows cancelPrevious_def
             split: option.splits)
qed

lemma filter_new:
  assumes "ys = xs @ zs"
  shows "filter P ys = filter P xs @ filter P (drop (length xs) ys)"
  using assms by simp

subsection \<open>The rows and the popover stay consistent\<close>

lemma stateInv_search:
  assumes "listRows a = []" "children (listBox a) = []" "selected (listBox a) = None"
    "popover a = poppedUp a" "\<not> paused a" "start a \<noteq> None" "end' a \<noteq> None"
  shows "stateInv (search sr q st e a)"
proof -
  let ?rs = "Search sr (searchCtx a st e) q"
  have ne: "listRows (search sr q st e a) \<noteq> [] \<longleftrightarrow> ?rs \<noteq> []"
    using assms(1) search_rows(1) [of sr q st e a]
    by (metis Nil_is_map_conv append_Nil)
  have "rowsInv (search sr q st e a)"
  proof (cases ?rs)
    case Nil
    then show ?thesis using assms by (simp add: rowsInv_def search_no_rows)
  next
    case (Cons r rs)
    then show ?thesis
      using assms search_first_row(2) [of a sr st e q r rs]
      by (auto simp add: rowsInv_def search_rows)
  qed
  moreover have "visInv (search sr q st e a)"
    using assms ne by (auto simp add: visInv_def)
  ultimately show ?thesis by (simp add: stateInv_def)
qed

lemma rowsInv_cong:
  "rowsInv a \<Longrightarrow> listBox b = listBox a \<Longrightarrow> listRows b = listRows a
     \<Longrightarrow> nextRow b = nextRow a \<Longrightarrow> rowsInv b"
  by (auto simp add: rowsInv_def)

lemma stateInv_Autocomplete: "stateInv a \<Longrightarrow> stateInv (Autocomplete a)"
proof (cases a rule: Autocomplete_cases)
  case (hidden s e)
  assume i: "stateInv a"
  let ?b = "clear (cancelPrevious a)"
  have "rowsInv a" using i by (simp add: stateInv_def)
  then have "rowsInv (cancelPrevious a)" by (rule rowsInv_cong) simp_all
  then have r: "rowsInv ?b" by (rule rowsInv_clear)
  have "visInv (hide (?b\<lparr>start := s, end' := e\<rparr>))"
    using i by (auto simp add: stateInv_def visInv_def)
  moreover have "rowsInv (hide (?b\<lparr>start := s, end' := e\<rparr>))"
    using r by (rule rowsInv_cong) simp_all
  ultimately show ?thesis using hidden by (simp add: stateInv_def)
next
  case (searched sr q st e)
  assume i: "stateInv a"
  let ?b = "clear (cancelPrevious a)"
  have "rowsInv a" using i by (simp add: stateInv_def)
  then have "rowsInv (cancelPrevious a)" by (rule rowsInv_cong) simp_all
  then have r: "children (listBox ?b) = []" "selected (listBox ?b) = None"
    by (rule clear_listBox)+
  have "stateInv (search sr q st e (?b\<lparr>end' := Some e, start := Some st\<rparr>))"
    using r i searched(1) by (intro stateInv_search) (auto simp add: stateInv_def visInv_def)
  then show ?thesis using searched by simp
qed

lemma stateInv_fields_cong:
  assumes "stateInv a" "listBox b = listBox a" "listRows b = listRows a" "nextRow b = nextRow a"
    "popover b = popover a" "poppedUp b = poppedUp a" "paused b = paused a"
    "start b = None \<longleftrightarrow> start a = None" "end' b = None \<longleftrightarrow> end' a = None"
  shows "stateInv b"
proof -
  have "rowsInv b" using assms by (auto simp add: stateInv_def intro: rowsInv_cong)
  moreover have "visInv b" using assms by (auto simp add: stateInv_def visInv_def)
  ultimately show ?thesis by (simp add: stateInv_def)
qed

lemma stateInv_hide_clear:
  assumes "stateInv a"
  shows "stateInv (hide (clear a))"
proof -
  have "rowsInv a" using assms by (simp add: stateInv_def)
  then have "rowsInv (clear a)" by (rule rowsInv_clear)
  then have "rowsInv (hide (clear a))" by (rule rowsInv_cong) simp_all
  moreover have "visInv (hide (clear a))" using assms by (auto simp add: stateInv_def visInv_def)
  ultimately show ?thesis by (simp add: stateInv_def)
qed

lemma stateInv_Clear: "stateInv a \<Longrightarrow> stateInv (snd (Clear a))"
  by (simp add: Clear_def stateInv_hide_clear)

lemma stateInv_Pause:
  assumes "stateInv a"
  shows "stateInv (Pause a)"
proof (cases "IsVisible a")
  case True
  let ?b = "a\<lparr>paused := True\<rparr>"
  have "rowsInv a" using assms by (simp add: stateInv_def)
  then have "rowsInv ?b" by (rule rowsInv_cong) simp_all
  then have "rowsInv (clear ?b)" by (rule rowsInv_clear)
  then have "rowsInv (hide (clear ?b))" by (rule rowsInv_cong) simp_all
  moreover have "visInv (hide (clear ?b))" using assms by (auto simp add: stateInv_def visInv_def)
  ultimately show ?thesis using True by (simp add: Pause_def Clear_def IsVisible_def stateInv_def)
next
  case False
  then have "listRows a = []" using assms by (auto simp add: IsVisible_def stateInv_def visInv_def)
  with assms False show ?thesis
    by (auto simp add: Pause_def Clear_def IsVisible_def stateInv_def visInv_def rowsInv_def)
qed

lemma stateInv_Unpause: "stateInv a \<Longrightarrow> stateInv (Unpause a)"
  by (auto simp add: Unpause_def stateInv_def visInv_def rowsInv_def)

lemma callOnSelect_fields [simp]:
  "onSelects (snd (callOnSelect f i d a)) = onSelects a"
  "popover (snd (callOnSelect f i d a)) = popover a"
  "listBox (snd (callOnSelect f i d a)) = listBox a"
  "listRows (snd (callOnSelect f i d a)) = listRows a"
  "searchers (snd (callOnSelect f i d a)) = searchers a"
  "cancel (snd (callOnSelect f i d a)) = cancel a"
  "minChars (snd (callOnSelect f i d a)) = minChars a"
  "timeout (snd (callOnSelect f i d a)) = timeout a"
  "poppedUp (snd (callOnSelect f i d a)) = poppedUp a"
  "cancelOnChange (snd (callOnSelect f i d a)) = cancelOnChange a"
  "paused (snd (callOnSelect f i d a)) = paused a"
  "nextCtx (snd (callOnSelect f i d a)) = nextCtx a"
  "nextRow (snd (callOnSelect f i d a)) = nextRow a"
  "start (snd (callOnSelect f i d a)) = None \<longleftrightarrow> start a = None"
  "end' (snd (callOnSelect f i d a)) = None \<longleftrightarrow> end' a = None"
  "calls (snd (callOnSelect f i d a))
     = calls a @ [OnSelectCall i \<lparr>Bounds = (start a, end' a), Data = d\<rparr>]"
  by (simp_all add: callOnSelect_def Let_def split: prod.splits)

lemma stateInv_callOnSelect: "stateInv a \<Longrightarrow> stateInv (snd (callOnSelect f i d a))"
  by (rule stateInv_fields_cong) simp_all

lemma insertSpace_fields:
  assumes "insertSpace a = Inr b"
  shows "onSelects b = onSelects a" "popover b = popover a" "listBox b = listBox a"
    "listRows b = listRows a" "searchers b = searchers a" "cancel b = cancel a"
    "minChars b = minChars a" "timeout b = timeout a" "poppedUp b = poppedUp a"
    "cancelOnChange b = cancelOnChange a" "paused b = paused a" "nextCtx b = nextCtx a"
    "nextRow b = nextRow a" "start b = start a" "end' b \<noteq> None" "end' a \<noteq> None"
  using assms by (auto simp add: insertSpace_def split: option.splits)

lemma stateInv_insertSpace:
  assumes "stateInv a" "insertSpace a = Inr b"
  shows "stateInv b"
  using assms(1)
proof (rule stateInv_fields_cong)
  show "end' b = None \<longleftrightarrow> end' a = None"
    using insertSpace_fields(15,16) [OF assms(2)] by auto
qed (simp_all add: insertSpace_fields [OF assms(2)])

lemma stateInv_runOnSelects: "stateInv a \<Longrightarrow> runOnSelects fs i d a = Inr a' \<Longrightarrow> stateInv a'"
proof (induction fs arbitrary: i a)
  case Nil
  then show ?case by simp
next
  case (Cons f fs)
  obtain h a1 where c: "callOnSelect f i d a = (h, a1)" by (cases "callOnSelect f i d a")
  have i1: "stateInv a1" using stateInv_callOnSelect [OF Cons.prems(1), of f i d] c by simp
  show ?case
  proof (cases h)
    case True
    then obtain a2 where s: "insertSpace a1 = Inr a2" "a' = snd (Clear a2)"
      using Cons.prems(2) c by (auto split: sum.splits)
    from i1 s(1) have "stateInv a2" by (rule stateInv_insertSpace)
    then show ?thesis using s(2) by (simp add: stateInv_Clear)
  next
    case False
    then have "runOnSelects fs (Suc i) d a1 = Inr a'" using Cons.prems(2) c by simp
    with i1 show ?thesis by (rule Cons.IH)
  qed
qed

lemma stateInv_selectRow: "stateInv a \<Longrightarrow> selectRow r a = Inr a' \<Longrightarrow> stateInv a'"
  by (auto simp add: selectRow_def Let_def stateInv_Clear split: option.splits if_splits
           intro: stateInv_runOnSelects)

lemma stateInv_Select: "stateInv a \<Longrightarrow> Select a = Inr (r, a') \<Longrightarrow> stateInv a'"
  by (auto simp add: Select_def split: if_splits sum.splits intro: stateInv_selectRow)

lemma stateInv_listSelect:
  assumes "stateInv a" "w \<in> set (children (listBox a))"
  shows "stateInv (listSelect w a)"
proof -
  have "rowsInv (listSelect w a)" using assms by (auto simp add: stateInv_def rowsInv_def)
  moreover have "visInv (listSelect w a)" using assms by (auto simp add: stateInv_def visInv_def)
  ultimately show ?thesis by (simp add: stateInv_def)
qed

lemma stateInv_row_child:
  assumes "stateInv a" "i < length (listRows a)"
  shows "ListBoxRow (listRows a ! i) \<in> set (children (listBox a))"
  using assms by (auto simp add: stateInv_def rowsInv_def)

lemma stateInv_move:
  assumes "stateInv a" "move down a = Inr (r, a')"
  shows "stateInv a'"
proof (cases "listRows a = []")
  case True
  then show ?thesis using assms by (simp add: move_def)
next
  case ne: False
  then have pos: "0 < length (listRows a)" by simp
  show ?thesis
  proof (cases "selected (listBox a)")
    case None
    then have "a' = listSelect (ListBoxRow (listRows a ! 0)) a"
      using assms(2) ne by (simp add: move_def)
    then show ?thesis using assms(1) pos by (simp add: stateInv_listSelect stateInv_row_child)
  next
    case (Some w)
    define ix where "ix =
       (if down
        then (if Index (listBox a) w + 1 = int (length (listRows a)) then 0
              else Index (listBox a) w + 1)
        else (if Index (listBox a) w - 1 = -1 then int (length (listRows a)) - 1
              else Index (listBox a) w - 1))"
    have mv: "move down a =
       (if ix < 0 \<or> int (length (listRows a)) \<le> ix then Inl IndexOutOfRange
        else Inr (True, listSelect (ListBoxRow (listRows a ! nat ix)) a))"
      using ne Some by (simp add: move_def Let_def ix_def)
    have ix: "0 \<le> ix" "ix < int (length (listRows a))"
        "a' = listSelect (ListBoxRow (listRows a ! nat ix)) a"
      using assms(2) unfolding mv by (auto split: if_splits)
    then have "nat ix < length (listRows a)" by linarith
    then show ?thesis using assms(1) ix(3) by (simp add: stateInv_listSelect stateInv_row_child)
  qed
qed

lemma Use_fields:
  assumes "Use ss a = Inr b"
  shows "listBox b = listBox a" "listRows b = listRows a" "nextRow b = nextRow a"
    "popover b = popover a" "poppedUp b = poppedUp a" "paused b = paused a"
    "start b = start a" "end' b = end' a" "cancel b = cancel a" "nextCtx b = nextCtx a"
    "calls b = calls a" "onSelects b = onSelects a" "buffer b = buffer a"
  using assms by (induction ss arbitrary: a; simp split: if_splits)+

lemma stateInv_Use: "stateInv a \<Longrightarrow> Use ss a = Inr b \<Longrightarrow> stateInv b"
  by (rule stateInv_fields_cong) (simp_all add: Use_fields)

lemma stateInv_apply_op:
  assumes "stateInv a" "apply_op x a = Inr a'"
  shows "stateInv a'"
proof (cases x)
  case OpAutocomplete
  then show ?thesis using assms by (auto intro: stateInv_Autocomplete)
next
  case OpClear
  then show ?thesis using assms by (auto intro: stateInv_Clear)
next
  case OpPause
  then show ?thesis using assms by (auto intro: stateInv_Pause)
next
  case OpUnpause
  then show ?thesis using assms by (auto intro: stateInv_Unpause)
next
  case OpSelect
  then show ?thesis using assms by (cases "Select a") (auto intro: stateInv_Select)
next
  case OpMoveUp
  then show ?thesis using assms by (cases "move False a") (auto simp: MoveUp_def intro: stateInv_move)
next
  case OpMoveDown
  then show ?thesis using assms by (cases "move True a") (auto simp: MoveDown_def intro: stateInv_move)
next
  case (OpUse ss)
  then show ?thesis using assms by (auto intro: stateInv_Use)
next
  case (OpAddSelectedFunc f)
  then show ?thesis using assms
    by (auto simp: AddSelectedFunc_def intro!: stateInv_fields_cong [OF assms(1)])
next
  case (OpSetMinLength n)
  then show ?thesis using assms
    by (auto simp: SetMinLength_def intro!: stateInv_fields_cong [OF assms(1)])
next
  case (OpSetCancelOnChange v)
  then show ?thesis using assms
    by (auto simp: SetCancelOnChange_def intro!: stateInv_fields_cong [OF assms(1)])
next
  case (OpSetTimeout d)
  then show ?thesis using assms
    by (auto simp: SetTimeout_def intro!: stateInv_fields_cong [OF assms(1)])
next
  case (OpEdit t c)
  then show ?thesis using assms
    by (auto intro!: stateInv_fields_cong [OF assms(1)])
next
  case (OpRowActivated i)
  then show ?thesis using assms by (auto split: if_splits intro: stateInv_selectRow)
next
  case OpUnmap
  then show ?thesis using assms
    by (auto simp: Unmap_def split: option.splits intro!: stateInv_fields_cong [OF assms(1)])
qed

lemma stateInv_run: "stateInv a \<Longrightarrow> run ops a = Inr a' \<Longrightarrow> stateInv a'"
proof (induction ops arbitrary: a)
  case Nil
  then show ?case by simp
next
  case (Cons x xs)
  then show ?case by (auto split: sum.splits dest: stateInv_apply_op)
qed

lemma stateInv_New: "stateInv (New b)"
  by (simp add: stateInv_def rowsInv_def visInv_def New_def)

lemma reachable_inv: "run ops (New b) = Inr a \<Longrightarrow> stateInv a"
  using stateInv_New by (rule stateInv_run)

lemma run_append:
  "run (xs @ ys) a = (case run xs a of Inl p \<Rightarrow> Inl p | Inr a' \<Rightarrow> run ys a')"
  by (induction xs arbitrary: a) (simp_all split: sum.splits)

subsection \<open>Live contexts\<close>

lemma created_append: "created (cs @ ds) = created cs @ created ds"
  by (induction cs rule: created.induct) simp_all

lemma created_filter: "created (filter isCtx cs) = created cs"
  by (induction cs rule: created.induct) simp_all

lemma cancelled_filter: "cancelled (filter isCtx cs) x = cancelled cs x"
  by (simp add: cancelled_def)

lemma live_filter: "live (filter isCtx cs) = live cs"
  by (simp add: live_def created_filter cancelled_filter)

lemma sessionsOK_filter: "sessionsOK (filter isCtx cs) = sessionsOK cs"
  by (simp add: sessionsOK_def live_filter)

lemma alwaysOK_snoc: "alwaysOK (cs @ [c]) \<longleftrightarrow> alwaysOK cs \<and> sessionsOK (cs @ [c])"
  by (auto simp add: alwaysOK_def)

lemma alwaysOK_self: "alwaysOK cs \<Longrightarrow> sessionsOK cs"
  by (simp add: alwaysOK_def)

lemma alwaysOK_filter: "alwaysOK (filter isCtx cs) = alwaysOK cs"
proof (induction cs rule: rev_induct)
  case Nil
  then show ?case by simp
next
  case (snoc c cs)
  show ?case
  proof (cases "isCtx c")
    case True
    have "sessionsOK (filter isCtx cs @ [c]) = sessionsOK (cs @ [c])"
      using sessionsOK_filter [of "cs @ [c]"] True by simp
    then show ?thesis using snoc True by (simp add: alwaysOK_snoc)
  next
    case False
    have "sessionsOK (cs @ [c]) = sessionsOK cs"
      using sessionsOK_filter [of "cs @ [c]"] sessionsOK_filter [of cs] False by simp
    then show ?thesis using snoc False alwaysOK_self [of cs] by (auto simp add: alwaysOK_snoc)
  qed
qed

lemma live_snoc_cancel:
  "live (cs @ [CtxCancel c]) = filter (\<lambda>x. c \<notin> set (ctxIds x)) (live cs)"
  by (auto simp add: live_def created_append cancelled_def intro!: filter_cong)

lemma live_snoc_withCancel:
  "live (cs @ [CtxWithCancel n])
     = live cs @ (if CtxCancel n \<in> set cs then [] else [CancelCtx n])"
  by (auto simp add: live_def created_append cancelled_def intro!: filter_cong)

lemma live_snoc_withTimeout:
  "live (cs @ [CtxWithTimeout n p t])
     = live cs @ (if cancelled cs (TimerCtx n p t) then [] else [TimerCtx n p t])"
  by (auto simp add: live_def created_append cancelled_def intro!: filter_cong)

lemma ctxInvL_view: "ctxInvL L a \<Longrightarrow> ctxView b = ctxView a \<Longrightarrow> ctxInvL L b"
  by (simp add: ctxView_def ctxInvL_def)

lemma ctxInv_view: "ctxInv a \<Longrightarrow> ctxView b = ctxView a \<Longrightarrow> ctxInv b"
  unfolding ctxInv_def by (auto simp add: ctxView_def dest: ctxInvL_view [of _ a b])

lemma ctxView_clear [simp]: "ctxView (clear a) = ctxView a"
  by (simp add: ctxView_def ctxCalls_def filter_empty_conv)

lemma ctxView_hide [simp]: "ctxView (hide a) = ctxView a"
  by (simp add: ctxView_def ctxCalls_def)

lemma ctxView_show [simp]: "ctxView (show' a) = ctxView a"
  by (simp add: ctxView_def ctxCalls_def)

lemma ctxView_listSelect [simp]: "ctxView (listSelect w a) = ctxView a"
  by (simp add: ctxView_def ctxCalls_def)

lemma ctxView_fold_appendRow [simp]: "ctxView (fold appendRow rs a) = ctxView a"
  by (simp add: ctxView_def ctxCalls_def fold_appendRow_rows filter_empty_conv)

lemma ctxView_Clear [simp]: "ctxView (snd (Clear a)) = ctxView a"
  by (simp add: Clear_def)

lemma ctxView_iters [simp]: "ctxView (a\<lparr>start := s, end' := e\<rparr>) = ctxView a"
  "ctxView (a\<lparr>end' := e, start := s\<rparr>) = ctxView a"
  "ctxView (a\<lparr>paused := p\<rparr>) = ctxView a"
  by (simp_all add: ctxView_def ctxCalls_def)

lemma ctxView_Pause [simp]: "ctxView (Pause a) = ctxView a"
  by (simp add: Pause_def)

lemma ctxView_callOnSelect [simp]: "ctxView (snd (callOnSelect f i d a)) = ctxView a"
  by (simp add: ctxView_def ctxCalls_def)

lemma ctxView_insertSpace: "insertSpace a = Inr b \<Longrightarrow> ctxView b = ctxView a"
  by (auto simp add: insertSpace_def ctxView_def ctxCalls_def split: option.splits)

lemma ctxView_runOnSelects: "runOnSelects fs i d a = Inr a' \<Longrightarrow> ctxView a' = ctxView a"
proof (induction fs arbitrary: i a)
  case Nil
  then show ?case by simp
next
  case (Cons f fs)
  obtain h a1 where c: "callOnSelect f i d a = (h, a1)" by (cases "callOnSelect f i d a")
  have v1: "ctxView a1 = ctxView a" using ctxView_callOnSelect [of f i d a] c by simp
  show ?case
  proof (cases h)
    case True
    then obtain a2 where s: "insertSpace a1 = Inr a2" "a' = snd (Clear a2)"
      using Cons.prems c by (auto split: sum.splits)
    then show ?thesis using v1 ctxView_insertSpace [OF s(1)] by simp
  next
    case False
    then have "runOnSelects fs (Suc i) d a1 = Inr a'" using Cons.prems c by simp
    then show ?thesis using Cons.IH v1 by simp
  qed
qed

lemma ctxView_selectRow: "selectRow r a = Inr a' \<Longrightarrow> ctxView a' = ctxView a"
  by (auto simp add: selectRow_def Let_def split: option.splits if_splits
           dest: ctxView_runOnSelects)

lemma ctxView_Select: "Select a = Inr (r, a') \<Longrightarrow> ctxView a' = ctxView a"
  by (auto simp add: Select_def split: if_splits sum.splits dest: ctxView_selectRow)

lemma ctxView_move: "move down a = Inr (r, a') \<Longrightarrow> ctxView a' = ctxView a"
  by (auto simp add: move_def Let_def split: if_splits option.splits)

lemma ctxView_Use: "Use ss a = Inr b \<Longrightarrow> ctxView b = ctxView a"
  by (simp add: ctxView_def ctxCalls_def Use_fields)

lemma ctxCalls_cancelPrevious:
  "ctxCalls (cancelPrevious a)
     = ctxCalls a @ (case cancel a of None \<Rightarrow> [] | Some c \<Rightarrow> [CtxCancel c])"
  by (simp add: cancelPrevious_def ctxCalls_def split: option.splits)

lemma ctxCalls_search:
  "ctxCalls (search sr q st e a)
     = ctxCalls a @ (if cancelOnChange a then [CtxWithCancel (nextCtx a)] else [])
        @ [CtxWithTimeout (searchTid a)
              (ValueCtx (if cancelOnChange a then CancelCtx (nextCtx a) else ParentCtx)
                 \<lparr>Start = st, End = e\<rparr>) (timeout a),
           CtxCancel (searchTid a)]"
  by (simp add: search_eq ctxCalls_def searchPrep_def fold_appendRow_rows filter_empty_conv)

lemma ctxInv_cancelPrevious:
  assumes "ctxInv a"
  shows "ctxInvL [] (cancelPrevious a)"
proof (cases "cancel a")
  case None
  then show ?thesis
    using assms by (simp add: ctxInv_def ctxInvL_def cancelPrevious_def ctxCalls_def)
next
  case (Some c)
  have l: "live (ctxCalls a) = [] \<or> live (ctxCalls a) = [CancelCtx c]"
    using assms Some by (auto simp add: ctxInv_def ctxInvL_def)
  have base: "(\<forall>i. CtxCancel i \<in> set (ctxCalls a) \<longrightarrow> i < nextCtx a)"
    "c < nextCtx a" "alwaysOK (ctxCalls a)"
    using assms Some by (auto simp add: ctxInv_def ctxInvL_def)
  have lv: "live (ctxCalls a @ [CtxCancel c]) = []"
    using l by (auto simp add: live_snoc_cancel)
  then have "sessionsOK (ctxCalls a @ [CtxCancel c])" by (simp add: sessionsOK_def)
  then show ?thesis
    using base lv Some
    by (auto simp add: ctxInvL_def ctxCalls_cancelPrevious alwaysOK_snoc)
qed

lemma ctxInv_search:
  assumes "ctxInvL [] a"
  shows "ctxInv (search sr q st e a)"
proof -
  let ?cs = "ctxCalls a" and ?n = "nextCtx a"
  have fresh: "\<And>i. CtxCancel i \<in> set ?cs \<Longrightarrow> i < ?n"
    and stored: "\<forall>c \<in> set_option (cancel a). c < ?n"
    and l0: "live ?cs = []" and ok0: "alwaysOK ?cs"
    using assms by (auto simp add: ctxInvL_def)
  have nf: "CtxCancel ?n \<notin> set ?cs" "CtxCancel (Suc ?n) \<notin> set ?cs"
    using fresh by fastforce+
  show ?thesis
  proof (cases "cancelOnChange a")
    case True
    let ?p = "ValueCtx (CancelCtx ?n) \<lparr>Start = st, End = e\<rparr>"
    let ?c1 = "?cs @ [CtxWithCancel ?n]"
    let ?c2 = "?c1 @ [CtxWithTimeout (Suc ?n) ?p (timeout a)]"
    let ?c3 = "?c2 @ [CtxCancel (Suc ?n)]"
    have eq: "ctxCalls (search sr q st e a) = ?c3"
      using True by (simp add: ctxCalls_search searchTid_def)
    have l1: "live ?c1 = [CancelCtx ?n]"
      using l0 nf by (simp add: live_snoc_withCancel)
    have l2: "live ?c2 = [CancelCtx ?n, TimerCtx (Suc ?n) ?p (timeout a)]"
      using l1 nf by (simp add: live_snoc_withTimeout cancelled_def del: append_assoc)
    have l3: "live ?c3 = [CancelCtx ?n]"
      using l2 by (simp add: live_snoc_cancel del: append_assoc)
    have ok: "alwaysOK ?c3"
      using ok0 l1 l2 l3
      by (simp add: alwaysOK_snoc sessionsOK_def sameSession_def del: append_assoc)
    have fr: "\<forall>i. CtxCancel i \<in> set ?c3 \<longrightarrow> i < Suc (Suc ?n)"
      using fresh by (auto simp add: less_Suc_eq)
    have "ctxInvL [CancelCtx ?n] (search sr q st e a)"
      unfolding ctxInvL_def eq using True l3 ok fr by (simp add: searchTid_def)
    then show ?thesis using True by (simp add: ctxInv_def)
  next
    case False
    let ?p = "ValueCtx ParentCtx \<lparr>Start = st, End = e\<rparr>"
    let ?c2 = "?cs @ [CtxWithTimeout ?n ?p (timeout a)]"
    let ?c3 = "?c2 @ [CtxCancel ?n]"
    have eq: "ctxCalls (search sr q st e a) = ?c3"
      using False by (simp add: ctxCalls_search searchTid_def)
    have l2: "live ?c2 = [TimerCtx ?n ?p (timeout a)]"
      using l0 nf by (simp add: live_snoc_withTimeout cancelled_def)
    have l3: "live ?c3 = []"
      using l2 by (simp add: live_snoc_cancel del: append_assoc)
    have ok: "alwaysOK ?c3"
      using ok0 l2 l3
      by (simp add: alwaysOK_snoc sessionsOK_def sameSession_def del: append_assoc)
    have fr: "\<forall>i. CtxCancel i \<in> set ?c3 \<longrightarrow> i < Suc ?n"
      using fresh by (auto simp add: less_Suc_eq)
    have "ctxInvL [] (search sr q st e a)"
      unfolding ctxInvL_def eq using False l3 ok fr stored
      by (auto simp add: searchTid_def less_Suc_eq)
    then show ?thesis by (simp add: ctxInv_def)
  qed
qed

lemma ctxInvL_ctxInv: "ctxInvL [] a \<Longrightarrow> ctxInv a"
  by (simp add: ctxInv_def)

lemma ctxInv_Autocomplete:
  assumes "ctxInv a"
  shows "ctxInv (Autocomplete a)"
proof (cases a rule: Autocomplete_cases)
  case (hidden s e)
  have "ctxView (Autocomplete a) = ctxView (cancelPrevious a)"
    using hidden by simp
  with ctxInv_cancelPrevious [OF assms] have "ctxInvL [] (Autocomplete a)"
    by (rule ctxInvL_view)
  then show ?thesis by (rule ctxInvL_ctxInv)
next
  case (searched sr q st e)
  have "ctxView (clear (cancelPrevious a)\<lparr>end' := Some e, start := Some st\<rparr>)
          = ctxView (cancelPrevious a)" by simp
  with ctxInv_cancelPrevious [OF assms]
  have "ctxInvL [] (clear (cancelPrevious a)\<lparr>end' := Some e, start := Some st\<rparr>)"
    by (rule ctxInvL_view)
  then show ?thesis using searched by (simp add: ctxInv_search)
qed

lemma ctxInv_Unmap:
  assumes "ctxInv a"
  shows "ctxInv (Unmap a)"
proof (cases "cancel a")
  case None
  then show ?thesis using assms by (simp add: Unmap_def)
next
  case (Some c)
  have "ctxInvL [] (cancelPrevious a)" using assms by (rule ctxInv_cancelPrevious)
  then have "ctxInvL [] (Unmap a)"
    using Some assms
    by (auto simp add: ctxInvL_def ctxInv_def Unmap_def cancelPrevious_def ctxCalls_def)
  then show ?thesis by (rule ctxInvL_ctxInv)
qed

lemma ctxView_apply_op:
  assumes "apply_op x a = Inr a'" "x \<noteq> OpAutocomplete" "x \<noteq> OpUnmap"
  shows "ctxView a' = ctxView a"
proof (cases x)
  case OpSelect
  then show ?thesis using assms by (cases "Select a") (auto dest: ctxView_Select)
next
  case OpMoveUp
  then show ?thesis using assms
    by (cases "move False a") (auto simp: MoveUp_def dest: ctxView_move)
next
  case OpMoveDown
  then show ?thesis using assms
    by (cases "move True a") (auto simp: MoveDown_def dest: ctxView_move)
next
  case (OpUse ss)
  then show ?thesis using assms by (auto dest: ctxView_Use)
next
  case (OpRowActivated i)
  then show ?thesis using assms by (auto split: if_splits dest: ctxView_selectRow)
next
  case OpClear
  then show ?thesis using assms by auto
next
  case OpPause
  then show ?thesis using assms by auto
qed (use assms in \<open>auto simp: Unpause_def AddSelectedFunc_def SetMinLength_def
       SetCancelOnChange_def SetTimeout_def ctxView_def ctxCalls_def\<close>)

lemma ctxInv_apply_op:
  assumes "ctxInv a" "apply_op x a = Inr a'"
  shows "ctxInv a'"
proof (cases "x = OpAutocomplete \<or> x = OpUnmap")
  case True
  then show ?thesis using assms by (auto intro: ctxInv_Autocomplete ctxInv_Unmap)
next
  case False
  then have "ctxView a' = ctxView a" using assms(2) by (simp add: ctxView_apply_op)
  with assms(1) show ?thesis by (rule ctxInv_view)
qed

lemma ctxInv_run: "ctxInv a \<Longrightarrow> run ops a = Inr a' \<Longrightarrow> ctxInv a'"
proof (induction ops arbitrary: a)
  case Nil
  then show ?case by simp
next
  case (Cons x xs)
  then show ?case by (auto split: sum.splits dest: ctxInv_apply_op)
qed

lemma ctxInv_New: "ctxInv (New b)"
  by (simp add: ctxInv_def ctxInvL_def New_def ctxCalls_def live_def alwaysOK_def sessionsOK_def)

lemma new_ctx_calls:
  "filter isCtx (calls (Autocomplete a))
     = filter isCtx (calls a) @ filter isCtx (drop (length (calls a)) (calls (Autocomplete a)))"
proof -
  obtain zs where "calls (Autocomplete a) = calls a @ zs" using calls_grow by blast
  then show ?thesis by (rule filter_new)
qed

lemma Autocomplete_ctx_calls:
  "filter isCtx (drop (length (calls a)) (calls (Autocomplete a))) = cancelCalls a
     \<and> cancel (Autocomplete a) = None
   \<or> (\<exists>st e. filter isCtx (drop (length (calls a)) (calls (Autocomplete a)))
                  = cancelCalls a @ deriveCalls a st e
             \<and> cancel (Autocomplete a) = (if cancelOnChange a then Some (nextCtx a) else None))"
proof (cases a rule: Autocomplete_cases)
  case (hidden s e)
  have "ctxView (Autocomplete a) = ctxView (cancelPrevious a)" unfolding hidden by simp
  then have "ctxCalls (Autocomplete a) = ctxCalls (cancelPrevious a)"
    and c: "cancel (Autocomplete a) = None"
    by (simp_all add: ctxView_def)
  then have "filter isCtx (calls (Autocomplete a)) = filter isCtx (calls a) @ cancelCalls a"
    by (simp add: ctxCalls_cancelPrevious cancelCalls_def) (simp add: ctxCalls_def)
  then have "filter isCtx (drop (length (calls a)) (calls (Autocomplete a))) = cancelCalls a"
    using new_ctx_calls [of a] by simp
  then show ?thesis using c by simp
next
  case (searched sr q st e)
  let ?a0 = "clear (cancelPrevious a)\<lparr>end' := Some e, start := Some st\<rparr>"
  have v: "ctxView ?a0 = ctxView (cancelPrevious a)" by simp
  then have c0: "ctxCalls ?a0 = ctxCalls a @ cancelCalls a"
    by (simp add: ctxView_def ctxCalls_cancelPrevious cancelCalls_def)
  have "ctxCalls (Autocomplete a) = (ctxCalls a @ cancelCalls a) @ deriveCalls a st e"
    unfolding searched(2) ctxCalls_search c0 by (simp add: deriveCalls_def searchTid_def)
  then have "filter isCtx (calls (Autocomplete a))
               = filter isCtx (calls a) @ cancelCalls a @ deriveCalls a st e"
    by (simp add: ctxCalls_def)
  then have 1: "filter isCtx (drop (length (calls a)) (calls (Autocomplete a)))
                  = cancelCalls a @ deriveCalls a st e"
    using new_ctx_calls [of a] by simp
  have 2: "cancel (Autocomplete a) = (if cancelOnChange a then Some (nextCtx a) else None)"
    unfolding searched(2) by simp
  show ?thesis using 1 2 by blast
qed

subsection \<open>Positions in the list box\<close>

lemma indexOf_bounds: "- 1 \<le> indexOf w xs \<and> indexOf w xs < int (length xs)"
  by (induction xs) (auto simp add: Let_def)

lemma indexOf_nth: "distinct xs \<Longrightarrow> i < length xs \<Longrightarrow> indexOf (xs ! i) xs = int i"
proof (induction xs arbitrary: i)
  case Nil
  then show ?case by simp
next
  case (Cons x xs)
  show ?case
  proof (cases i)
    case 0
    then show ?thesis by simp
  next
    case (Suc j)
    then have "xs ! j \<noteq> x" "indexOf (xs ! j) xs = int j"
      using Cons by auto
    then show ?thesis using Suc by (simp add: Let_def)
  qed
qed

subsection \<open>The selection callbacks\<close>

lemma onSelectIndices_append: "onSelectIndices (cs @ ds) = onSelectIndices cs @ onSelectIndices ds"
  by (induction cs rule: onSelectIndices.induct) simp_all

lemma bufferInserts_append: "bufferInserts (cs @ ds) = bufferInserts cs @ bufferInserts ds"
  by (induction cs rule: bufferInserts.induct) simp_all

lemma onSelectIndices_ListRemove [simp]:
  "onSelectIndices (map ListRemove ws) = []" "onSelectIndices (map (ListRemove \<circ> g) xs) = []"
  by (induction ws, simp_all) (induction xs, simp_all)

lemma bufferInserts_ListRemove [simp]:
  "bufferInserts (map ListRemove ws) = []" "bufferInserts (map (ListRemove \<circ> g) xs) = []"
  by (induction ws, simp_all) (induction xs, simp_all)

lemma upt_shift: "[i ..< Suc (i + n)] = i # [Suc i ..< Suc (i + n)]"
  by (simp add: upt_conv_Cons)

lemma passAll_fields [simp]:
  "onSelects (passAll fs i d a) = onSelects a"
  "popover (passAll fs i d a) = popover a"
  "listBox (passAll fs i d a) = listBox a"
  "listRows (passAll fs i d a) = listRows a"
  "poppedUp (passAll fs i d a) = poppedUp a"
  "paused (passAll fs i d a) = paused a"
  "onSelectIndices (calls (passAll fs i d a)) = onSelectIndices (calls a) @ [i ..< i + length fs]"
  "bufferInserts (calls (passAll fs i d a)) = bufferInserts (calls a)"
proof (induction fs arbitrary: i a)
  case Nil
  {
    case 1 show ?case by simp
  next
    case 2 show ?case by simp
  next
    case 3 show ?case by simp
  next
    case 4 show ?case by simp
  next
    case 5 show ?case by simp
  next
    case 6 show ?case by simp
  next
    case 7 show ?case by simp
  next
    case 8 show ?case by simp
  }
next
  case (Cons f fs)
  {
    case 1 show ?case by (simp add: Cons.IH)
  next
    case 2 show ?case by (simp add: Cons.IH)
  next
    case 3 show ?case by (simp add: Cons.IH)
  next
    case 4 show ?case by (simp add: Cons.IH)
  next
    case 5 show ?case by (simp add: Cons.IH)
  next
    case 6 show ?case by (simp add: Cons.IH)
  next
    case 7 show ?case
      by (simp add: Cons.IH onSelectIndices_append upt_shift del: upt_Suc)
  next
    case 8 show ?case by (simp add: Cons.IH bufferInserts_append)
  }
qed

lemma stateInv_passAll: "stateInv a \<Longrightarrow> stateInv (passAll fs i d a)"
  by (induction fs arbitrary: i a) (simp_all add: stateInv_callOnSelect)

lemma runOnSelects_decline:
  "allDecline fs i d a \<Longrightarrow>
     runOnSelects (fs @ rest) i d a = runOnSelects rest (i + length fs) d (passAll fs i d a)"
  by (induction fs arbitrary: i a) (auto split: prod.splits)

lemma runOnSelects_handled:
  assumes "stateInv a" "listRows a \<noteq> []" "fst (callOnSelect f i d a)"
  shows "\<exists>e a'. end' (snd (callOnSelect f i d a)) = Some e
          \<and> runOnSelects (f # rest) i d a = Inr a'
          \<and> buffer a' = Insert e [WhitespaceRune] (buffer (snd (callOnSelect f i d a)))
          \<and> listRows a' = [] \<and> \<not> popover a'
          \<and> onSelectIndices (calls a') = onSelectIndices (calls a) @ [i]
          \<and> bufferInserts (calls a') = bufferInserts (calls a) @ [(e, [WhitespaceRune])]"
proof -
  let ?a1 = "snd (callOnSelect f i d a)"
  have i1: "stateInv ?a1" using assms(1) by (rule stateInv_callOnSelect)
  have ne: "listRows ?a1 \<noteq> []" using assms(2) by simp
  have "end' ?a1 \<noteq> None" using i1 ne unfolding stateInv_def visInv_def by blast
  then obtain e where e: "end' ?a1 = Some e" by blast
  define a2 where "a2 = emit (BufferInsert e [WhitespaceRune])
                 (?a1\<lparr>buffer := Insert e [WhitespaceRune] (buffer ?a1), end' := Some (Suc e)\<rparr>)"
  have ins: "insertSpace ?a1 = Inr a2" using e by (simp add: insertSpace_def a2_def)
  have i2: "stateInv a2" using i1 ins by (rule stateInv_insertSpace)
  have vis: "IsVisible a2" using i2 ne by (auto simp add: a2_def IsVisible_def stateInv_def visInv_def)
  have pp: "poppedUp a2" using i2 vis by (auto simp add: IsVisible_def stateInv_def visInv_def)
  have run: "runOnSelects (f # rest) i d a = Inr (hide (clear a2))"
    using assms(3) ins vis by (cases "callOnSelect f i d a") (simp add: Clear_def)
  have "buffer (hide (clear a2)) = Insert e [WhitespaceRune] (buffer ?a1)"
    by (simp add: a2_def)
  moreover have "listRows (hide (clear a2)) = []" "\<not> popover (hide (clear a2))"
    using pp by simp_all
  moreover have "onSelectIndices (calls (hide (clear a2))) = onSelectIndices (calls a) @ [i]"
    by (simp add: a2_def onSelectIndices_append)
  moreover have "bufferInserts (calls (hide (clear a2)))
                   = bufferInserts (calls a) @ [(e, [WhitespaceRune])]"
    by (simp add: a2_def bufferInserts_append)
  ultimately show ?thesis using e run by simp
qed



subsection \<open>The example, evaluated\<close>

lemma ex_text_eq: "ex_text = [104, 101, 108, 108, 111, 32, 64, 119, 111, 114, 108, 100, 32, 102, 111, 111]"
  by (simp add: ex_text_def runes_def)

lemma BackwardFindChar_unfold:
  "BackwardFindChar pred txt i s =
     (if i = 0 then (False, 0, s)
      else if fst (pred (txt ! (i - 1)) s) then (True, i - 1, snd (pred (txt ! (i - 1)) s))
      else BackwardFindChar pred txt (i - 1) (snd (pred (txt ! (i - 1)) s)))"
  by (cases i) (auto split: prod.splits bool.splits)

lemma ex_scan:
  "content ex_buffer = ex_text" "cursor_position ex_buffer = 10"
  "IterAtOffset ex_buffer 10 = 10"
  "ForwardFindChar IsSpace ex_text 10 = (True, 12)"
  "BackwardFindChar (findPred [64 \<mapsto> s]) ex_text 10 None = (True, 6, Some s)"
  "ForwardChar ex_text 6 = 7"
  "Text ex_buffer 7 11 = [119, 111, 114, 108]"
  "Text ex_buffer 6 11 = [64, 119, 111, 114, 108]"
  by (simp_all add: ex_buffer_def ex_text_eq IterAtOffset_def ForwardFindChar.simps IsSpace_def
        BackwardFindChar_unfold findPred_def WhitespaceRune_def ForwardChar_def Text_def
      del: BackwardFindChar.simps)

lemma ex_Autocomplete:
  assumes "buffer a = ex_buffer" "searchers a = [64 \<mapsto> s]" "minChars a = 1" "\<not> paused a"
  shows "Autocomplete a = search s [119, 111, 114, 108] 6 11
           ((clear (cancelPrevious a))\<lparr>end' := Some 11, start := Some 6\<rparr>)"
  using assms
  by (simp add: Autocomplete_def Let_def ex_scan BackwardChar_def del: BackwardFindChar.simps)

lemma ex_run_ready: "run ex_setup (New ex_buffer) = Inr ex_ready"
  by (simp add: ex_setup_def ex_ready_def New_def SetMinLength_def AddSelectedFunc_def
        ex_searcher_def)

lemma ex_run_shown: "run (ex_setup @ [OpAutocomplete]) (New ex_buffer) = Inr ex_shown"
  by (simp add: ex_setup_def ex_shown_def ex_ready_def New_def SetMinLength_def
        AddSelectedFunc_def ex_searcher_def)

lemma ex_ready_fields:
  "buffer ex_ready = ex_buffer" "searchers ex_ready = [64 \<mapsto> ex_searcher]"
  "minChars ex_ready = 1" "\<not> paused ex_ready" "listRows ex_ready = []"
  "cancel ex_ready = None" "calls ex_ready = []" "nextRow ex_ready = 0" "nextCtx ex_ready = 0"
  "\<not> cancelOnChange ex_ready" "\<not> poppedUp ex_ready" "\<not> popover ex_ready"
  "timeout ex_ready = 0" "onSelects ex_ready = [ex_decline, ex_accept]"
  "listBox ex_ready = \<lparr>children = [], selected = None\<rparr>"
  by (simp_all add: ex_ready_def New_def)

lemma ex_shown_eq:
  "ex_shown = search ex_searcher [119, 111, 114, 108] 6 11
                ((clear (cancelPrevious ex_ready))\<lparr>end' := Some 11, start := Some 6\<rparr>)"
  unfolding ex_shown_def by (rule ex_Autocomplete) (simp_all add: ex_ready_fields)

lemma ex_results [simp]: "Search ex_searcher c q = [1, 2, 3]"
  by (simp add: ex_searcher_def)

lemma ex_shown_fields:
  "map data (listRows ex_shown) = [1, 2, 3]"
  "children (listBox ex_shown) = [0, 1, 2]"
  "selected (listBox ex_shown) = Some 0"
  "popover ex_shown" "\<not> paused ex_shown"
  "start ex_shown = Some 6" "end' ex_shown = Some 11"
  "buffer ex_shown = ex_buffer"
  "onSelects ex_shown = [ex_decline, ex_accept]"
  "calls ex_shown =
     [CtxWithTimeout 0 (ValueCtx ParentCtx \<lparr>Start = 6, End = 11\<rparr>) 0,
      SearchCall 64 (TimerCtx 0 (ValueCtx ParentCtx \<lparr>Start = 6, End = 11\<rparr>) 0) [119, 111, 114, 108],
      ListAppend 0, ListAppend 1, ListAppend 2, ListSelectRow 0, PopoverPopup, CtxCancel 0]"
  unfolding ex_shown_eq
  by (simp_all add: search_rows search_first_row ex_ready_fields clear_def cancelPrevious_def
        search_eq searchPrep_def searchCtx_def searchTid_def fold_appendRow_rows
        upt_conv_Cons ex_searcher_def)

lemma ex_shown9_eq:
  "ex_shown9 = search ex_searcher9 [119, 111, 114, 108] 6 11
                ((clear (cancelPrevious ex_ready9))\<lparr>end' := Some 11, start := Some 6\<rparr>)"
  unfolding ex_shown9_def by (rule ex_Autocomplete) (simp_all add: ex_ready9_def New_def)

lemma ex_shown9_length: "length (listRows ex_shown9) = 9"
proof -
  have m: "map data (listRows ex_shown9) = [1, 2, 3, 4, 5, 6, 7, 8, 9]"
    unfolding ex_shown9_eq by (simp add: search_rows) (simp add: ex_searcher9_def)
  have "length (map data (listRows ex_shown9)) = 9" unfolding m by simp
  then show ?thesis by simp
qed

lemma ex_run_paused: "run (ex_setup @ [OpAutocomplete, OpPause]) (New ex_buffer) = Inr (Pause ex_shown)"
  using ex_run_shown run_append [of "ex_setup @ [OpAutocomplete]" "[OpPause]" "New ex_buffer"]
  by simp

lemma ex_shown_row0: "listRows ex_shown ! 0 = \<lparr>ListBoxRow = 0, data = 1\<rparr>"
  unfolding ex_shown_eq
  by (simp add: search_first_row ex_ready_fields clear_def cancelPrevious_def)

lemma ex_shown_length: "length (listRows ex_shown) = 3"
proof -
  have "length (map data (listRows ex_shown)) = 3" unfolding ex_shown_fields(1) by simp
  then show ?thesis by simp
qed

lemma ex_once_eq:
  "ex_once = search ex_searcher [119, 111, 114, 108] 6 11
                ((clear (cancelPrevious (SetCancelOnChange True ex_ready)))\<lparr>end' := Some 11, start := Some 6\<rparr>)"
  unfolding ex_once_def
  by (rule ex_Autocomplete) (simp_all add: ex_ready_fields SetCancelOnChange_def)

lemma ex_once_fields:
  "buffer ex_once = ex_buffer" "searchers ex_once = [64 \<mapsto> ex_searcher]"
  "minChars ex_once = 1" "\<not> paused ex_once" "cancel ex_once = Some 0" "nextCtx ex_once = 2"
  "cancelOnChange ex_once" "timeout ex_once = 0"
  "filter isCtx (calls ex_once)
     = [CtxWithCancel 0, CtxWithTimeout 1 (ValueCtx (CancelCtx 0) \<lparr>Start = 6, End = 11\<rparr>) 0,
        CtxCancel 1]"
  unfolding ex_once_eq
  by (simp_all add: ex_ready_fields SetCancelOnChange_def searchTid_def
        ctxCalls_search [unfolded ctxCalls_def] clear_def cancelPrevious_def)

lemma ex_mixed_fields:
  "buffer ex_mixed = ex_buffer" "searchers ex_mixed = [64 \<mapsto> ex_searcher]"
  "minChars ex_mixed = 1" "\<not> paused ex_mixed" "cancel ex_mixed = Some 0" "nextCtx ex_mixed = 2"
  "\<not> cancelOnChange ex_mixed" "timeout ex_mixed = 0"
  "filter isCtx (calls ex_mixed)
     = [CtxWithCancel 0, CtxWithTimeout 1 (ValueCtx (CancelCtx 0) \<lparr>Start = 6, End = 11\<rparr>) 0,
        CtxCancel 1]"
  unfolding ex_mixed_def ex_once_def [symmetric]
  by (simp_all add: SetCancelOnChange_def ex_once_fields)

lemma ex_mixed_live: "live (calls ex_mixed) = [CancelCtx 0]"
proof -
  have "live (calls ex_mixed) = live (filter isCtx (calls ex_mixed))" by (simp add: live_filter)
  then show ?thesis unfolding ex_mixed_fields by (simp add: live_def cancelled_def)
qed

lemma ex_mixed_again:
  "Autocomplete ex_mixed = search ex_searcher [119, 111, 114, 108] 6 11
                ((clear (cancelPrevious ex_mixed))\<lparr>end' := Some 11, start := Some 6\<rparr>)"
  by (rule ex_Autocomplete) (simp_all add: ex_mixed_fields)

lemma ex_mixed_new:
  "filter isCtx (drop (length (calls ex_mixed)) (calls (Autocomplete ex_mixed)))
     = [CtxCancel 0, CtxWithTimeout 2 (ValueCtx ParentCtx \<lparr>Start = 6, End = 11\<rparr>) 0,
        CtxCancel 2]"
  "cancel (Autocomplete ex_mixed) = None"
proof -
  have "filter isCtx (calls (Autocomplete ex_mixed))
          = filter isCtx (calls ex_mixed)
            @ [CtxCancel 0, CtxWithTimeout 2 (ValueCtx ParentCtx \<lparr>Start = 6, End = 11\<rparr>) 0,
               CtxCancel 2]"
    unfolding ex_mixed_again
    by (simp add: ex_mixed_fields searchTid_def ctxCalls_search [unfolded ctxCalls_def]
          ctxCalls_cancelPrevious [unfolded ctxCalls_def] filter_empty_conv)
  then show "filter isCtx (drop (length (calls ex_mixed)) (calls (Autocomplete ex_mixed)))
     = [CtxCancel 0, CtxWithTimeout 2 (ValueCtx ParentCtx \<lparr>Start = 6, End = 11\<rparr>) 0,
        CtxCancel 2]"
    using new_ctx_calls [of ex_mixed] by simp
  show "cancel (Autocomplete ex_mixed) = None"
    unfolding ex_mixed_again by (simp add: ex_mixed_fields)
qed

lemma ex_run_mixed:
  "run (ex_setup @ [OpSetCancelOnChange True, OpAutocomplete, OpSetCancelOnChange False])
     (New ex_buffer) = Inr ex_mixed"
  using ex_run_ready
    run_append [of ex_setup "[OpSetCancelOnChange True, OpAutocomplete, OpSetCancelOnChange False]"
                  "New ex_buffer"]
  by (simp add: ex_mixed_def)

section \<open>The claims\<close>

subsection \<open>Search sessions\<close>

text \<open>
  Claim C1. After any sequence of operations on a new autocompleter, at every moment
  (every prefix of the calls made) at most one search session is uncancelled: at most one
  cancellable context and at most one timeout context derived by \<open>Autocomplete\<close> is live,
  and all live contexts belong to one session. Between calls no timeout context is live,
  and the only context that can be live is the one whose cancel function is stored. Every
  call of \<open>Autocomplete\<close> first calls the stored cancel function, after which no derived
  context is live, and only then derives the contexts of a new session, if it searches at
  all; the cancel function it leaves stored is never the old one (it is nil, or that of
  the context just derived).
\<close>

theorem at_most_one_live_session:
  assumes "run ops (New b) = Inr a"
  shows "(\<forall>p \<in> set (prefixes (calls a)). sessionsOK p)
       \<and> filter isTimerCtx (live (calls a)) = []
       \<and> set (live (calls a)) \<subseteq> CancelCtx ` set_option (cancel a)
       \<and> live (calls a @ cancelCalls a) = []
       \<and> (filter isCtx (drop (length (calls a)) (calls (Autocomplete a))) = cancelCalls a
             \<and> cancel (Autocomplete a) = None
           \<or> (\<exists>st e. filter isCtx (drop (length (calls a)) (calls (Autocomplete a)))
                          = cancelCalls a @ deriveCalls a st e
                 \<and> cancel (Autocomplete a)
                     = (if cancelOnChange a then Some (nextCtx a) else None)))"
proof -
  have i: "ctxInv a" using ctxInv_New assms by (rule ctxInv_run)
  then have "alwaysOK (ctxCalls a)" by (auto simp add: ctxInv_def ctxInvL_def)
  then have 1: "\<forall>p \<in> set (prefixes (calls a)). sessionsOK p"
    by (simp add: ctxCalls_def alwaysOK_filter) (simp add: alwaysOK_def)
  have l: "live (calls a) = live (ctxCalls a)" by (simp add: ctxCalls_def live_filter)
  have 2: "filter isTimerCtx (live (calls a)) = []"
    and 3: "set (live (calls a)) \<subseteq> CancelCtx ` set_option (cancel a)"
    using i unfolding l by (auto simp add: ctxInv_def ctxInvL_def)
  have "live (ctxCalls (cancelPrevious a)) = []"
    using ctxInv_cancelPrevious [OF i] by (simp add: ctxInvL_def)
  then have "live (calls (cancelPrevious a)) = []" by (simp add: ctxCalls_def live_filter)
  moreover have "calls (cancelPrevious a) = calls a @ cancelCalls a"
    by (simp add: cancelPrevious_def cancelCalls_def split: option.splits)
  ultimately have 4: "live (calls a @ cancelCalls a) = []" by simp
  show ?thesis using 1 2 3 4 Autocomplete_ctx_calls [of a] by simp
qed

theorem at_most_one_live_session_witness:
  "run (ex_setup @ [OpSetCancelOnChange True, OpAutocomplete, OpSetCancelOnChange False])
     (New ex_buffer) = Inr ex_mixed
   \<and> alwaysOK (calls ex_mixed)
   \<and> cancel ex_mixed = Some 0 \<and> live (calls ex_mixed) = [CancelCtx 0]
   \<and> cancelCalls ex_mixed = [CtxCancel 0]
   \<and> live (calls ex_mixed @ cancelCalls ex_mixed) = []
   \<and> filter isCtx (drop (length (calls ex_mixed)) (calls (Autocomplete ex_mixed)))
       = [CtxCancel 0, CtxWithTimeout 2 (ValueCtx ParentCtx \<lparr>Start = 6, End = 11\<rparr>) 0,
          CtxCancel 2]
   \<and> cancel (Autocomplete ex_mixed) = None"
  using at_most_one_live_session [OF ex_run_mixed] ex_run_mixed ex_mixed_live ex_mixed_new
    ex_mixed_fields(5)
  by (simp add: alwaysOK_def cancelCalls_def)

subsection \<open>The popover and the rows\<close>

text \<open>
  Claim C2. After any sequence of operations on a new autocompleter (the methods
  \<open>Autocomplete\<close>, \<open>Clear\<close>, \<open>Pause\<close>, \<open>Unpause\<close>, \<open>Select\<close>, \<open>MoveUp\<close>, \<open>MoveDown\<close>,
  the registration and setting methods, edits of the buffer, clicks on rows, unmap), the
  popover is shown if and only if the rendered result list is non-empty and the
  autocompleter is not paused.
\<close>

theorem popover_shown_iff_results:
  assumes "run ops (New b) = Inr a"
  shows "popover a \<longleftrightarrow> listRows a \<noteq> [] \<and> \<not> paused a"
proof -
  have "stateInv a" using stateInv_New assms by (rule stateInv_run)
  then show ?thesis by (auto simp add: stateInv_def visInv_def)
qed

theorem popover_shown_iff_results_witness:
  "run (ex_setup @ [OpAutocomplete]) (New ex_buffer) = Inr ex_shown
   \<and> popover ex_shown \<and> listRows ex_shown \<noteq> [] \<and> \<not> paused ex_shown"
  using popover_shown_iff_results [OF ex_run_shown] ex_run_shown ex_shown_fields(4,5)
  by simp

subsection \<open>Word extraction\<close>

text \<open>
  Claim C3. With the buffer \<open>hello @world foo\<close>, the cursor between \<open>r\<close> and \<open>l\<close>, a
  searcher for \<open>@\<close> and minimum length 1, the claim expects the query \<open>world\<close> and the
  bounds of \<open>@world\<close>. The forward scan stops in front of the space after \<open>world\<close> (offset
  12), and the source then moves the end iterator one character back (offset 11): the
  searcher is called with the query \<open>worl\<close>, and the bounds recorded and handed to the
  searcher, 6 and 11, span \<open>@worl\<close>.
\<close>

theorem Autocomplete_query_example:
  "run (ex_setup @ [OpAutocomplete]) (New ex_buffer) = Inr ex_shown
   \<and> filter isSearchCall (calls ex_shown)
        = [SearchCall 64 (TimerCtx 0 (ValueCtx ParentCtx \<lparr>Start = 6, End = 11\<rparr>) 0)
             (runes ''worl'')]
   \<and> start ex_shown = Some 6 \<and> end' ex_shown = Some 11
   \<and> Text ex_buffer 6 11 = runes ''@worl''"
  by (simp add: ex_run_shown ex_shown_fields ex_scan runes_def)

subsection \<open>The number of rows\<close>

text \<open>
  Claim C4. The claim expects at most \<open>MaxResults\<close> (8) rows when the searcher returns more
  than 8 candidates, as the constant is documented (the maximum number of search
  results). The loop of lines 329-339 builds a row for every candidate and nothing
  truncates the results: with a searcher that returns nine candidates, \<open>Autocomplete\<close>
  renders nine rows, more than \<open>MaxResults\<close>.
\<close>

theorem more_rows_than_MaxResults:
  "run [OpUse [ex_searcher9], OpSetMinLength 1, OpAutocomplete] (New ex_buffer) = Inr ex_shown9
   \<and> length (Search ex_searcher9 ParentCtx []) = 9
   \<and> length (listRows ex_shown9) = 9
   \<and> MaxResults = 8
   \<and> \<not> length (listRows ex_shown9) \<le> MaxResults"
proof -
  have r: "run [OpUse [ex_searcher9], OpSetMinLength 1, OpAutocomplete] (New ex_buffer)
     = Inr ex_shown9"
    by (simp add: ex_shown9_def ex_ready9_def New_def SetMinLength_def ex_searcher9_def)
  show ?thesis using r ex_shown9_length by (simp add: MaxResults_def ex_searcher9_def)
qed

subsection \<open>Selecting a row\<close>

text \<open>
  Claim C5. When a row of the list box is selected (by \<open>Select\<close> on the highlighted row or
  by a click), the selection callbacks are called in registration order. If the callbacks
  before some callback all return false and that callback returns true, the callbacks
  called are exactly those up to it, exactly one space is inserted into the buffer, at the
  position of the end iterator of the match range, the result list is emptied and the
  popover is hidden. If every callback returns false, all are called in order, nothing is
  inserted, and the result list, the list box and the popover are unchanged.
\<close>

theorem selection_callbacks:
  assumes "run ops (New b) = Inr a"
    and "w \<in> set (children (listBox a))"
    and "d = data (listRows a ! nat (Index (listBox a) w))"
  shows "(onSelects a = pre @ f # post \<and> allDecline pre 0 d a
            \<and> fst (callOnSelect f (length pre) d (passAll pre 0 d a)) \<longrightarrow>
          (\<exists>e a'. selectRow (Some w) a = Inr a'
             \<and> end' (snd (callOnSelect f (length pre) d (passAll pre 0 d a))) = Some e
             \<and> content (buffer a')
                 = take e (content (buffer (snd (callOnSelect f (length pre) d (passAll pre 0 d a)))))
                   @ [WhitespaceRune]
                   @ drop e (content (buffer (snd (callOnSelect f (length pre) d (passAll pre 0 d a)))))
             \<and> bufferInserts (calls a') = bufferInserts (calls a) @ [(e, [WhitespaceRune])]
             \<and> onSelectIndices (calls a') = onSelectIndices (calls a) @ [0 ..< Suc (length pre)]
             \<and> listRows a' = [] \<and> \<not> popover a'))
       \<and> (allDecline (onSelects a) 0 d a \<longrightarrow>
          (\<exists>a'. selectRow (Some w) a = Inr a'
             \<and> onSelectIndices (calls a') = onSelectIndices (calls a) @ [0 ..< length (onSelects a)]
             \<and> bufferInserts (calls a') = bufferInserts (calls a)
             \<and> listRows a' = listRows a \<and> listBox a' = listBox a \<and> popover a' = popover a))
       \<and> (selected (listBox a) = Some w \<longrightarrow>
            Select a = map_sum id (Pair True) (selectRow (Some w) a))"
proof -
  have stateInv: "stateInv a" using assms(1) by (rule reachable_inv)
  have ch: "children (listBox a) = map ListBoxRow (listRows a)"
    using stateInv by (auto simp add: stateInv_def rowsInv_def)
  have ne: "listRows a \<noteq> []" using assms(2) ch by auto
  have vis: "IsVisible a" using stateInv ne by (auto simp add: IsVisible_def stateInv_def visInv_def)
  obtain k where k: "k < length (children (listBox a))" "children (listBox a) ! k = w"
    using assms(2) by (auto simp add: in_set_conv_nth)
  have "distinct (children (listBox a))" using stateInv by (auto simp add: stateInv_def rowsInv_def)
  then have "Index (listBox a) w = int k" using k indexOf_nth by (auto simp add: Index_def)
  then have sr: "selectRow (Some w) a = runOnSelects (onSelects a) 0 d a"
    using k(1) ch assms(3) by (simp add: selectRow_def Let_def)
  have A: "\<exists>e a'. selectRow (Some w) a = Inr a'
             \<and> end' (snd (callOnSelect f (length pre) d (passAll pre 0 d a))) = Some e
             \<and> content (buffer a')
                 = take e (content (buffer (snd (callOnSelect f (length pre) d (passAll pre 0 d a)))))
                   @ [WhitespaceRune]
                   @ drop e (content (buffer (snd (callOnSelect f (length pre) d (passAll pre 0 d a)))))
             \<and> bufferInserts (calls a') = bufferInserts (calls a) @ [(e, [WhitespaceRune])]
             \<and> onSelectIndices (calls a') = onSelectIndices (calls a) @ [0 ..< Suc (length pre)]
             \<and> listRows a' = [] \<and> \<not> popover a'"
    if h: "onSelects a = pre @ f # post" "allDecline pre 0 d a"
          "fst (callOnSelect f (length pre) d (passAll pre 0 d a))"
  proof -
    let ?p = "passAll pre 0 d a"
    have r: "selectRow (Some w) a = runOnSelects (f # post) (length pre) d ?p"
      using sr h(1) runOnSelects_decline [OF h(2), of "f # post"] by simp
    have "stateInv ?p" "listRows ?p \<noteq> []" using stateInv ne by (simp_all add: stateInv_passAll)
    from runOnSelects_handled [OF this h(3), of post]
    obtain e a' where ea: "end' (snd (callOnSelect f (length pre) d ?p)) = Some e"
        "runOnSelects (f # post) (length pre) d ?p = Inr a'"
        "buffer a' = Insert e [WhitespaceRune] (buffer (snd (callOnSelect f (length pre) d ?p)))"
        "listRows a' = []" "\<not> popover a'"
        "onSelectIndices (calls a') = onSelectIndices (calls ?p) @ [length pre]"
        "bufferInserts (calls a') = bufferInserts (calls ?p) @ [(e, [WhitespaceRune])]"
      by blast
    have "content (buffer a')
            = take e (content (buffer (snd (callOnSelect f (length pre) d ?p))))
              @ [WhitespaceRune]
              @ drop e (content (buffer (snd (callOnSelect f (length pre) d ?p))))"
      using ea(3) by (simp add: Insert_def)
    moreover have "onSelectIndices (calls a') = onSelectIndices (calls a) @ [0 ..< Suc (length pre)]"
      using ea(6) by simp
    moreover have "bufferInserts (calls a') = bufferInserts (calls a) @ [(e, [WhitespaceRune])]"
      using ea(7) by simp
    ultimately show ?thesis using r ea(1,2,4,5)
      by (intro exI [of _ e] exI [of _ a']) simp
  qed
  have B: "\<exists>a'. selectRow (Some w) a = Inr a'
             \<and> onSelectIndices (calls a') = onSelectIndices (calls a) @ [0 ..< length (onSelects a)]
             \<and> bufferInserts (calls a') = bufferInserts (calls a)
             \<and> listRows a' = listRows a \<and> listBox a' = listBox a \<and> popover a' = popover a"
    if h: "allDecline (onSelects a) 0 d a"
    using sr runOnSelects_decline [OF h, of "[]"] by simp
  have C: "Select a = map_sum id (Pair True) (selectRow (Some w) a)"
    if "selected (listBox a) = Some w"
    using that vis ne by (simp add: Select_def split: sum.splits)
  show ?thesis
  proof (intro conjI impI)
    assume "onSelects a = pre @ f # post \<and> allDecline pre 0 d a
            \<and> fst (callOnSelect f (length pre) d (passAll pre 0 d a))"
    then have "onSelects a = pre @ f # post" "allDecline pre 0 d a"
       "fst (callOnSelect f (length pre) d (passAll pre 0 d a))" by simp_all
    then show "\<exists>e a'. selectRow (Some w) a = Inr a'
             \<and> end' (snd (callOnSelect f (length pre) d (passAll pre 0 d a))) = Some e
             \<and> content (buffer a')
                 = take e (content (buffer (snd (callOnSelect f (length pre) d (passAll pre 0 d a)))))
                   @ [WhitespaceRune]
                   @ drop e (content (buffer (snd (callOnSelect f (length pre) d (passAll pre 0 d a)))))
             \<and> bufferInserts (calls a') = bufferInserts (calls a) @ [(e, [WhitespaceRune])]
             \<and> onSelectIndices (calls a') = onSelectIndices (calls a) @ [0 ..< Suc (length pre)]
             \<and> listRows a' = [] \<and> \<not> popover a'" by (rule A)
  next
    assume "allDecline (onSelects a) 0 d a"
    then show "\<exists>a'. selectRow (Some w) a = Inr a'
             \<and> onSelectIndices (calls a') = onSelectIndices (calls a) @ [0 ..< length (onSelects a)]
             \<and> bufferInserts (calls a') = bufferInserts (calls a)
             \<and> listRows a' = listRows a \<and> listBox a' = listBox a \<and> popover a' = popover a"
      by (rule B)
  next
    assume "selected (listBox a) = Some w"
    then show "Select a = map_sum id (Pair True) (selectRow (Some w) a)" by (rule C)
  qed
qed

theorem selection_callbacks_witness:
  "run (ex_setup @ [OpAutocomplete]) (New ex_buffer) = Inr ex_shown
   \<and> onSelects ex_shown = [ex_decline] @ ex_accept # []
   \<and> (\<exists>a'. selectRow (Some 0) ex_shown = Inr a'
         \<and> content (buffer a') = runes ''hello @worl d foo''
         \<and> onSelectIndices (calls a') = [0, 1]
         \<and> listRows a' = [] \<and> \<not> popover a')"
proof -
  have w: "0 \<in> set (children (listBox ex_shown))" by (simp add: ex_shown_fields)
  have d: "(1::nat) = data (listRows ex_shown ! nat (Index (listBox ex_shown) 0))"
    by (simp add: Index_def ex_shown_fields ex_shown_row0)
  have os: "onSelects ex_shown = [ex_decline] @ ex_accept # []" by (simp add: ex_shown_fields)
  have dec: "allDecline [ex_decline] 0 1 ex_shown"
    by (simp add: callOnSelect_def ex_decline_def)
  let ?a1 = "snd (callOnSelect ex_accept (length [ex_decline]) 1 (passAll [ex_decline] 0 1 ex_shown))"
  have acc: "fst (callOnSelect ex_accept (length [ex_decline]) 1 (passAll [ex_decline] 0 1 ex_shown))"
    by (simp add: callOnSelect_def ex_accept_def)
  have e: "end' ?a1 = Some 11"
    by (simp add: callOnSelect_def ex_accept_def ex_decline_def ex_shown_fields)
  have c: "content (buffer ?a1) = ex_text"
    by (simp add: callOnSelect_def ex_accept_def ex_decline_def ex_shown_fields ex_scan)
  have os0: "onSelectIndices (calls ex_shown) = []" by (simp add: ex_shown_fields)
  have t: "take 11 ex_text @ [WhitespaceRune] @ drop 11 ex_text = runes ''hello @worl d foo''"
    by (simp add: ex_text_eq runes_def WhitespaceRune_def)
  from selection_callbacks [OF ex_run_shown w d, of "[ex_decline]" ex_accept "[]"] os dec acc
  obtain e' a' where r: "selectRow (Some 0) ex_shown = Inr a'" "end' ?a1 = Some e'"
      "content (buffer a') = take e' (content (buffer ?a1)) @ [WhitespaceRune]
                               @ drop e' (content (buffer ?a1))"
      "onSelectIndices (calls a') = onSelectIndices (calls ex_shown) @ [0 ..< Suc (length [ex_decline])]"
      "listRows a' = []" "\<not> popover a'"
    by blast
  have "e' = 11" using r(2) e by simp
  then have "content (buffer a') = runes ''hello @worl d foo''" using r(3) c t by simp
  moreover have "onSelectIndices (calls a') = [0, 1]" using r(4) os0 by (simp add: upt_conv_Cons)
  ultimately show ?thesis using ex_run_shown os r(1,5,6) by simp
qed

subsection \<open>Pausing\<close>

text \<open>
  Claim C6. \<open>Pause\<close> sets the flag, empties the result list and hides the popover. While
  the flag is set, \<open>Autocomplete\<close> returns with the popover hidden and the result list
  empty and calls no searcher. \<open>Unpause\<close> only resets the flag: the popover, the result
  list and the calls made are as before.
\<close>

theorem Pause_semantics:
  assumes "run ops (New b) = Inr a"
  shows "listRows (Pause a) = [] \<and> \<not> popover (Pause a) \<and> paused (Pause a)
       \<and> (paused a \<longrightarrow>
            \<not> popover (Autocomplete a) \<and> listRows (Autocomplete a) = []
          \<and> filter isSearchCall (calls (Autocomplete a)) = filter isSearchCall (calls a))
       \<and> Unpause a = a\<lparr>paused := False\<rparr>
       \<and> popover (Unpause a) = popover a \<and> listRows (Unpause a) = listRows a
       \<and> calls (Unpause a) = calls a"
proof -
  have i: "stateInv a" using assms by (rule reachable_inv)
  have ip: "stateInv (Pause a)" using i by (rule stateInv_Pause)
  have pp: "paused (Pause a)" by (simp add: Pause_def Clear_def)
  have 1: "listRows (Pause a) = [] \<and> \<not> popover (Pause a) \<and> paused (Pause a)"
    using ip pp by (auto simp add: stateInv_def visInv_def)
  have 2: "\<not> popover (Autocomplete a) \<and> listRows (Autocomplete a) = []
          \<and> filter isSearchCall (calls (Autocomplete a)) = filter isSearchCall (calls a)"
    if p: "paused a"
  proof -
    have e: "listRows a = []" "\<not> poppedUp a" "\<not> popover a"
      using i p by (auto simp add: stateInv_def visInv_def)
    have "Autocomplete a = hide (clear (cancelPrevious a))"
      using p by (simp add: Autocomplete_def Let_def)
    then show ?thesis using e by (simp add: cancelPrevious_def emit_def split: option.splits)
  qed
  show ?thesis using 1 2 by (simp add: Unpause_def)
qed

theorem Pause_semantics_witness:
  "run (ex_setup @ [OpAutocomplete, OpPause]) (New ex_buffer) = Inr (Pause ex_shown)
   \<and> paused (Pause ex_shown)
   \<and> \<not> popover (Autocomplete (Pause ex_shown)) \<and> listRows (Autocomplete (Pause ex_shown)) = []
   \<and> filter isSearchCall (calls (Autocomplete (Pause ex_shown)))
        = filter isSearchCall (calls (Pause ex_shown))"
proof -
  have p: "paused (Pause ex_shown)" by (simp add: Pause_def Clear_def)
  show ?thesis using Pause_semantics [OF ex_run_paused] ex_run_paused p by simp
qed

subsection \<open>Clearing\<close>

text \<open>
  Claim C7. When the popover is shown with a non-empty result list, \<open>Clear\<close> returns true,
  empties the list and hides the popover; otherwise it returns false and changes nothing.
  The second of two consecutive calls of \<open>Clear\<close> returns false.
\<close>

theorem Clear_semantics:
  assumes "run ops (New b) = Inr a"
  shows "(popover a \<and> listRows a \<noteq> [] \<longrightarrow>
            fst (Clear a) \<and> listRows (snd (Clear a)) = [] \<and> \<not> popover (snd (Clear a)))
       \<and> (\<not> (popover a \<and> listRows a \<noteq> []) \<longrightarrow> Clear a = (False, a))
       \<and> \<not> fst (Clear (snd (Clear a)))"
proof -
  have i: "stateInv a" using assms by (rule reachable_inv)
  then have "popover a = poppedUp a" by (simp add: stateInv_def visInv_def)
  then show ?thesis by (auto simp add: Clear_def IsVisible_def)
qed

theorem Clear_semantics_witness:
  "run (ex_setup @ [OpAutocomplete]) (New ex_buffer) = Inr ex_shown
   \<and> popover ex_shown \<and> listRows ex_shown \<noteq> []
   \<and> fst (Clear ex_shown) \<and> listRows (snd (Clear ex_shown)) = []
   \<and> \<not> popover (snd (Clear ex_shown)) \<and> \<not> fst (Clear (snd (Clear ex_shown)))"
proof -
  have ne: "listRows ex_shown \<noteq> []" using ex_shown_fields(1) by auto
  show ?thesis using Clear_semantics [OF ex_run_shown] ex_run_shown ex_shown_fields(4) ne by simp
qed

subsection \<open>Moving the selection\<close>

text \<open>
  Claim C8. With the row at index \<open>i\<close> of a list of \<open>N\<close> rows selected, \<open>MoveDown\<close> returns
  true and selects the row at index \<open>(i + 1) mod N\<close>, and \<open>MoveUp\<close> returns true and selects
  the row at index \<open>(i - 1) mod N\<close>; the rows themselves are unchanged.
\<close>

theorem move_wraps_around:
  assumes "run ops (New b) = Inr a"
    and "selected (listBox a) = Some w" and "Index (listBox a) w = int i"
  shows "i < length (listRows a)
       \<and> (\<exists>a' w'. MoveDown a = Inr (True, a') \<and> listRows a' = listRows a
             \<and> selected (listBox a') = Some w'
             \<and> Index (listBox a') w' = int ((i + 1) mod length (listRows a)))
       \<and> (\<exists>a' w'. MoveUp a = Inr (True, a') \<and> listRows a' = listRows a
             \<and> selected (listBox a') = Some w'
             \<and> Index (listBox a') w' = (int i - 1) mod int (length (listRows a)))"
proof -
  have stateInv: "stateInv a" using assms(1) by (rule reachable_inv)
  let ?n = "length (listRows a)"
  have ch: "children (listBox a) = map ListBoxRow (listRows a)" "distinct (children (listBox a))"
    using stateInv by (auto simp add: stateInv_def rowsInv_def)
  have len: "length (children (listBox a)) = ?n" using ch by simp
  have lt: "i < ?n"
    using assms(3) indexOf_bounds [of w "children (listBox a)"] len by (simp add: Index_def)
  then have ne: "listRows a \<noteq> []" by auto
  have idx: "\<And>j. j < ?n \<Longrightarrow> Index (listBox (listSelect (ListBoxRow (listRows a ! j)) a))
                 (ListBoxRow (listRows a ! j)) = int j"
    using ch indexOf_nth [of "children (listBox a)"] by (simp add: Index_def)
  let ?d = "(i + 1) mod ?n"
  have d: "?d < ?n" using lt by (intro mod_less_divisor) auto
  have "MoveDown a = Inr (True, listSelect (ListBoxRow (listRows a ! ?d)) a)"
  proof (cases "Suc i = ?n")
    case True
    then show ?thesis using ne assms(2,3) by (simp add: MoveDown_def move_def Let_def)
  next
    case False
    then have "?d = Suc i" using lt by simp
    then show ?thesis
      using False ne assms(2,3) lt
      by (simp add: MoveDown_def move_def Let_def nat_add_distrib)
  qed
  then have down: "\<exists>a' w'. MoveDown a = Inr (True, a') \<and> listRows a' = listRows a
           \<and> selected (listBox a') = Some w'
           \<and> Index (listBox a') w' = int ((i + 1) mod length (listRows a))"
    using idx [OF d] by simp
  let ?u = "nat ((int i - 1) mod int ?n)"
  have "0 < int ?n" using lt by auto
  then have nn: "0 \<le> (int i - 1) mod int ?n" "(int i - 1) mod int ?n < int ?n"
    by (rule pos_mod_sign, rule pos_mod_bound)
  then have u: "?u < ?n" by linarith
  have "MoveUp a = Inr (True, listSelect (ListBoxRow (listRows a ! ?u)) a)"
  proof (cases "i = 0")
    case True
    then have "(int i - 1) mod int ?n = int ?n - 1"
      using lt by (simp add: zmod_minus1)
    then show ?thesis using True ne assms(2,3) lt by (simp add: MoveUp_def move_def Let_def)
  next
    case False
    then have "(int i - 1) mod int ?n = int i - 1" using lt by simp
    then show ?thesis
      using False ne assms(2,3) lt
      by (simp add: MoveUp_def move_def Let_def)
  qed
  then have up: "\<exists>a' w'. MoveUp a = Inr (True, a') \<and> listRows a' = listRows a
           \<and> selected (listBox a') = Some w'
           \<and> Index (listBox a') w' = (int i - 1) mod int (length (listRows a))"
    using idx [OF u] nn by simp
  from lt down up show ?thesis by (intro conjI)
qed

theorem move_wraps_around_witness:
  "run (ex_setup @ [OpAutocomplete]) (New ex_buffer) = Inr ex_shown
   \<and> selected (listBox ex_shown) = Some 0 \<and> Index (listBox ex_shown) 0 = 0
   \<and> (\<exists>a' w'. MoveDown ex_shown = Inr (True, a') \<and> selected (listBox a') = Some w'
         \<and> Index (listBox a') w' = 1)
   \<and> (\<exists>a' w'. MoveUp ex_shown = Inr (True, a') \<and> selected (listBox a') = Some w'
         \<and> Index (listBox a') w' = 2)"
proof -
  have i: "Index (listBox ex_shown) 0 = int 0" by (simp add: Index_def ex_shown_fields)
  show ?thesis
    using move_wraps_around [OF ex_run_shown ex_shown_fields(3) i] ex_run_shown i
    by (simp add: ex_shown_fields(3) ex_shown_length) blast
qed

subsection \<open>Saving to a file when the fetch fails\<close>

text \<open>
  Claim C9. If \<open>http.Get\<close> of the media URL fails, \<open>saveToFile\<close> adds exactly one toast,
  makes no call after the fetch (it never calls \<open>os.Create\<close>, so the files are as
  before), and returns normally.
\<close>

theorem saveToFile_fetch_failure:
  assumes "httpGet env pictureURL = Inl err"
  shows "toasts (saveToFile env outPath pictureURL v)
           = toasts v @ [''An error occured while downloading picture data'']
       \<and> io_calls (saveToFile env outPath pictureURL v) = io_calls v @ [HttpGet pictureURL]
       \<and> files (saveToFile env outPath pictureURL v) = files v"
  using assms by (simp add: saveToFile_def AddToast_def Println_def io_def)

theorem saveToFile_fetch_failure_witness:
  "toasts (saveToFile \<lparr>httpGet = (\<lambda>u. Inl ''timeout''), osCreate = (\<lambda>p. None),
                       ioCopy = (\<lambda>b. (b, None))\<rparr> ''/tmp/cat.png'' ''https://example.org/cat.png''
             \<lparr>toasts = [], files = Map.empty, stdout = [], io_calls = []\<rparr>)
     = [''An error occured while downloading picture data'']
   \<and> io_calls (saveToFile \<lparr>httpGet = (\<lambda>u. Inl ''timeout''), osCreate = (\<lambda>p. None),
                       ioCopy = (\<lambda>b. (b, None))\<rparr> ''/tmp/cat.png'' ''https://example.org/cat.png''
             \<lparr>toasts = [], files = Map.empty, stdout = [], io_calls = []\<rparr>)
     = [HttpGet ''https://example.org/cat.png'']"
  using saveToFile_fetch_failure
    [of "\<lparr>httpGet = (\<lambda>u. Inl ''timeout''), osCreate = (\<lambda>p. None), ioCopy = (\<lambda>b. (b, None))\<rparr>"
        "''https://example.org/cat.png''" "''timeout''" "''/tmp/cat.png''"
        "\<lparr>toasts = [], files = Map.empty, stdout = [], io_calls = []\<rparr>"]
  by simp

subsection \<open>The first row\<close>



end
